theory Spec2Isabelle
  imports Main
begin

section \<open>Tasks, pointers and errors\<close>

text \<open>
  The library handles tasks only through \<^verbatim>\<open>Task*\<close>.  A pointer is modelled by
  its address, a natural number, and the null pointer is address 0.  The task objects
  themselves live in a store that maps an address to the object found there.

  Everything that ends a call abnormally is a value of \<open>error\<close>: calling a member
  function through a null pointer, indexing a \<^verbatim>\<open>std::array\<close> outside its bounds,
  \<^verbatim>\<open>pfatal\<close> and a failed \<^verbatim>\<open>passert\<close>.
\<close>

type_synonym ptr = nat

definition nullptr :: ptr where
  "nullptr = 0"

datatype error = NullDereference | OutOfBounds | Fatal string | AssertionFailed string

definition bind_err :: "error + 'a \<Rightarrow> ('a \<Rightarrow> error + 'b) \<Rightarrow> error + 'b" where
  "bind_err m f = (case m of Inl e \<Rightarrow> Inl e | Inr x \<Rightarrow> f x)"

text \<open>
  \<^verbatim>\<open>SimpleTask\<close> (SchedulerTests/SimpleTask.hpp) is the task class of the repository
  that is prioritizable by an auto-mutable priority and quantizable.  Its three fields are
  \<^verbatim>\<open>uint32_t\<close>; they are natural numbers below \<open>2 ^ 32\<close> here, and the one
  operation that can wrap, \<^verbatim>\<open>ticks -= 1\<close>, has its wrap-around written out.
\<close>

record SimpleTask =
  ident :: nat
  priority :: nat
  ticks :: nat

type_synonym heap = "ptr \<Rightarrow> SimpleTask"

definition UINT32_MAX :: nat where
  "UINT32_MAX = 4294967295"

definition demote :: "SimpleTask \<Rightarrow> SimpleTask" where
  "demote t = (if priority t > 1 then t\<lparr>priority := priority t - 1\<rparr> else t)"

definition tick :: "SimpleTask \<Rightarrow> SimpleTask" where
  "tick t = t\<lparr>ticks := (ticks t + UINT32_MAX) mod 4294967296\<rparr>"

definition hasUsedUpTimeAllotment :: "SimpleTask \<Rightarrow> bool" where
  "hasUsedUpTimeAllotment t = (ticks t = 0)"

definition allocateTicks :: "nat \<Rightarrow> SimpleTask \<Rightarrow> SimpleTask" where
  "allocateTicks n t = t\<lparr>ticks := n\<rparr>"

text \<open>\<^verbatim>\<open>SimpleTask::QuantumSpecifier\<close>: levels 1, 2 and 3 have a quantum, every other
  level ends in \<^verbatim>\<open>pfatal\<close>.\<close>

definition QuantumSpecifier :: "nat \<Rightarrow> error + nat" where
  "QuantumSpecifier p =
     (if p = 0 then Inl (Fatal ''Should never allocate ticks for idle task.'')
      else if p = 1 then Inr UINT32_MAX
      else if p = 2 then Inr 2
      else if p = 3 then Inr 1
      else Inl (Fatal ''Invalid priority level. Supported: 0 (Reserved), 1, 2, 3.''))"

text \<open>A member function called through a pointer: null cannot be dereferenced.\<close>

definition through :: "ptr \<Rightarrow> (SimpleTask \<Rightarrow> SimpleTask) \<Rightarrow> heap \<Rightarrow> error + heap" where
  "through p f h = (if p = nullptr then Inl NullDereference else Inr (h(p := f (h p))))"

definition getPriority :: "heap \<Rightarrow> ptr \<Rightarrow> error + nat" where
  "getPriority h p = (if p = nullptr then Inl NullDereference else Inr (priority (h p)))"

text \<open>
  A scheduler is assembled from a policy, which owns the ready queue, and event handlers.
  The state a call can change is the ready queue of the policy and the store of the task
  objects the kernel lent to the scheduler.  The idle task pointer of
  \<^verbatim>\<open>IdleTaskSupport\<close> is set by the constructor and never assigned again, so
  \<^verbatim>\<open>getIdleTask()\<close> is a constant of the scheduler: the parameter \<open>idle\<close> of the
  handlers that call it.
\<close>

record 'q scheduler =
  tasks :: heap
  queue :: 'q

section \<open>The FIFO policy\<close>

text \<open>\<^verbatim>\<open>Policies::FIFO::Normal::StlQueueImp\<close>: a \<^verbatim>\<open>std::queue<Task*>\<close>, front
  of the queue first.\<close>

definition StlQueue_next :: "ptr list \<Rightarrow> ptr \<times> ptr list" where
  "StlQueue_next q = (if q = [] then (nullptr, q) else (hd q, tl q))"

definition StlQueue_ready :: "ptr \<Rightarrow> ptr list \<Rightarrow> ptr list" where
  "StlQueue_ready task q = q @ [task]"

definition FIFO_next :: "ptr list scheduler \<Rightarrow> ptr \<times> ptr list scheduler" where
  "FIFO_next s = (case StlQueue_next (queue s) of (t, q) \<Rightarrow> (t, s\<lparr>queue := q\<rparr>))"

definition FIFO_ready :: "ptr \<Rightarrow> ptr list scheduler \<Rightarrow> error + ptr list scheduler" where
  "FIFO_ready task s = Inr (s\<lparr>queue := StlQueue_ready task (queue s)\<rparr>)"

section \<open>The prioritized multi-queue policies\<close>

text \<open>
  A multi-queue policy maps a priority level to a sub-policy behind a
  \<^verbatim>\<open>Scheduler::Policy<Task>*\<close>.  The policy maker of the sample schedulers,
  \<^verbatim>\<open>PolicyMakers::DynamicFIFO\<close>, creates a FIFO policy for every level, so a sub-queue
  is the FIFO queue above.

  \<^verbatim>\<open>ArrayMapImp\<close> keeps a \<^verbatim>\<open>std::array\<close> of \<open>MaxPriorityLevel + 1\<close> such
  pointers, null (\<open>None\<close>) for a level that no task has been enqueued at yet.  Its
  \<^verbatim>\<open>next\<close> walks the array with reverse iterators; \<open>ArrayMap_scan\<close> is that loop, over
  the reversed array.
\<close>

type_synonym subqueue = "ptr list"

fun ArrayMap_scan :: "subqueue option list \<Rightarrow> ptr \<times> subqueue option list" where
  "ArrayMap_scan [] = (nullptr, [])"
| "ArrayMap_scan (None # rest) =
     (case ArrayMap_scan rest of (t, rest') \<Rightarrow> (t, None # rest'))"
| "ArrayMap_scan (Some q # rest) =
     (case StlQueue_next q of (t, q') \<Rightarrow>
        if t \<noteq> nullptr then (t, Some q' # rest)
        else (case ArrayMap_scan rest of (r, rest') \<Rightarrow> (r, Some q' # rest')))"

definition ArrayMap_next :: "subqueue option list \<Rightarrow> ptr \<times> subqueue option list" where
  "ArrayMap_next queues = (case ArrayMap_scan (rev queues) of (t, qs) \<Rightarrow> (t, rev qs))"

text \<open>\<^verbatim>\<open>ArrayMapImp::ready\<close> reads the priority through the task pointer and indexes the
  array with it, unchecked; the sub-queue of a level is created at the first task of that
  level.\<close>

definition ArrayMap_ready ::
  "heap \<Rightarrow> ptr \<Rightarrow> subqueue option list \<Rightarrow> error + subqueue option list" where
  "ArrayMap_ready h task queues =
     bind_err (getPriority h task) (\<lambda>p.
       if length queues \<le> p then Inl OutOfBounds
       else Inr (queues[p := Some (StlQueue_ready task
                   (case queues ! p of None \<Rightarrow> [] | Some q \<Rightarrow> q))]))"

text \<open>
  \<^verbatim>\<open>StlMapImp\<close> keeps a \<^verbatim>\<open>std::map\<close> ordered by \<^verbatim>\<open>std::greater<Priority>\<close>:
  an association list in iteration order, largest key first.  \<open>StlMap_enqueue\<close> is
  \<^verbatim>\<open>queues[priority]\<close> (which inserts the key when it is new), the creation of the
  sub-queue, and its \<^verbatim>\<open>ready\<close>.
\<close>

fun StlMap_next :: "(nat \<times> subqueue) list \<Rightarrow> ptr \<times> (nat \<times> subqueue) list" where
  "StlMap_next [] = (nullptr, [])"
| "StlMap_next ((p, q) # rest) =
     (case StlQueue_next q of (t, q') \<Rightarrow>
        if t \<noteq> nullptr then (t, (p, q') # rest)
        else (case StlMap_next rest of (r, rest') \<Rightarrow> (r, (p, q') # rest')))"

fun StlMap_enqueue :: "nat \<Rightarrow> ptr \<Rightarrow> (nat \<times> subqueue) list \<Rightarrow> (nat \<times> subqueue) list" where
  "StlMap_enqueue p task [] = [(p, StlQueue_ready task [])]"
| "StlMap_enqueue p task ((k, q) # rest) =
     (if p = k then (k, StlQueue_ready task q) # rest
      else if k < p then (p, StlQueue_ready task []) # (k, q) # rest
      else (k, q) # StlMap_enqueue p task rest)"

definition StlMap_ready ::
  "heap \<Rightarrow> ptr \<Rightarrow> (nat \<times> subqueue) list \<Rightarrow> error + (nat \<times> subqueue) list" where
  "StlMap_ready h task queues =
     bind_err (getPriority h task) (\<lambda>p. Inr (StlMap_enqueue p task queues))"

text \<open>The array policy as the policy of an assembled scheduler.\<close>

definition MultiQueue_next ::
  "subqueue option list scheduler \<Rightarrow> ptr \<times> subqueue option list scheduler" where
  "MultiQueue_next s = (case ArrayMap_next (queue s) of (t, qs) \<Rightarrow> (t, s\<lparr>queue := qs\<rparr>))"

definition MultiQueue_ready ::
  "ptr \<Rightarrow> subqueue option list scheduler \<Rightarrow> error + subqueue option list scheduler" where
  "MultiQueue_ready task s =
     bind_err (ArrayMap_ready (tasks s) task (queue s)) (\<lambda>qs. Inr (s\<lparr>queue := qs\<rparr>))"

text \<open>
  What the statements about the multi-queue policies speak of: a level that offers no
  task, a ready queue without null entries (every entry came in through \<^verbatim>\<open>ready\<close>,
  which dereferences the task), a map in the order of \<^verbatim>\<open>std::greater\<close>, and the map
  after the front of the level \<open>p\<close> has been dequeued.
\<close>

definition idle_level :: "subqueue option \<Rightarrow> bool" where
  "idle_level x = (x = None \<or> x = Some [])"

definition no_null :: "subqueue option list \<Rightarrow> bool" where
  "no_null queues = (\<forall>x \<in> set queues. \<forall>q. x = Some q \<longrightarrow> nullptr \<notin> set q)"

definition no_null_map :: "(nat \<times> subqueue) list \<Rightarrow> bool" where
  "no_null_map m = (\<forall>q \<in> set (map snd m). nullptr \<notin> set q)"

definition descending :: "(nat \<times> subqueue) list \<Rightarrow> bool" where
  "descending m = sorted_wrt (\<lambda>a b. b < a) (map fst m)"

definition pop_level :: "nat \<Rightarrow> (nat \<times> subqueue) list \<Rightarrow> (nat \<times> subqueue) list" where
  "pop_level p m = map (\<lambda>e. if fst e = p then (fst e, tl (snd e)) else e) m"

text \<open>
  The states of a multi-queue policy: the state its constructor leaves (an array of null
  pointers, an empty map) and every state that a \<^verbatim>\<open>ready()\<close> that returns, or a
  \<^verbatim>\<open>next()\<close>, makes of such a state.  The priorities of the tasks may change between
  the calls, so every \<^verbatim>\<open>ready()\<close> has its own store.
\<close>

inductive reachable_array :: "subqueue option list \<Rightarrow> bool" where
  constructed: "reachable_array (replicate n None)"
| after_ready: "reachable_array queues \<Longrightarrow> ArrayMap_ready h task queues = Inr queues'
     \<Longrightarrow> reachable_array queues'"
| after_next: "reachable_array queues \<Longrightarrow> reachable_array (snd (ArrayMap_next queues))"

inductive reachable_map :: "(nat \<times> subqueue) list \<Rightarrow> bool" where
  constructed: "reachable_map []"
| after_ready: "reachable_map m \<Longrightarrow> StlMap_ready h task m = Inr m' \<Longrightarrow> reachable_map m'"
| after_next: "reachable_map m \<Longrightarrow> reachable_map (snd (StlMap_next m))"

section \<open>Event handlers\<close>

text \<open>
  A handler is a class template over the concrete scheduler and reaches the policy through
  \<^verbatim>\<open>static_cast<ConcreteScheduler*>(this)\<close>.  The members it calls there are
  parameters of its model: \<open>rdy\<close> for \<^verbatim>\<open>ready\<close>, \<open>nxt\<close> for \<^verbatim>\<open>next\<close>.
\<close>

text \<open>\<^verbatim>\<open>TaskYielding::Common::RunNext::onTaskYielded\<close>\<close>

definition RunNext_onTaskYielded ::
  "(ptr \<Rightarrow> 's \<Rightarrow> error + 's) \<Rightarrow> ('s \<Rightarrow> ptr \<times> 's) \<Rightarrow> ptr \<Rightarrow> 's \<Rightarrow> error + ptr \<times> 's" where
  "RunNext_onTaskYielded rdy nxt current s =
     bind_err (rdy current s) (\<lambda>s1. Inr (nxt s1))"

text \<open>
  \<^verbatim>\<open>TaskTermination::Common::RunNextWithIdleTaskSupport::onTaskFinished\<close>.  The
  finished task is not used.
\<close>

definition RunNextWithIdleTaskSupport_onTaskFinished ::
  "('s \<Rightarrow> ptr \<times> 's) \<Rightarrow> ptr \<Rightarrow> ptr \<Rightarrow> 's \<Rightarrow> ptr \<times> 's" where
  "RunNextWithIdleTaskSupport_onTaskFinished nxt idle current s =
     (case nxt s of (n, s1) \<Rightarrow> (if n = nullptr then idle else n, s1))"

text \<open>\<^verbatim>\<open>TimerInterrupt::Preemptive::RunNextWithIdleTaskSupport::onTimerInterrupt\<close>\<close>

definition RunNextWithIdleTaskSupport_onTimerInterrupt ::
  "(ptr \<Rightarrow> 's \<Rightarrow> error + 's) \<Rightarrow> ('s \<Rightarrow> ptr \<times> 's) \<Rightarrow> ptr \<Rightarrow> ptr \<Rightarrow> 's \<Rightarrow> error + ptr \<times> 's" where
  "RunNextWithIdleTaskSupport_onTimerInterrupt rdy nxt idle current s =
     bind_err (if current \<noteq> idle then rdy current s else Inr s) (\<lambda>s1.
       case nxt s1 of (n, s2) \<Rightarrow> Inr (if n = nullptr then idle else n, s2))"

text \<open>
  \<^verbatim>\<open>TaskUnblocked::Cooperative::KeepRunningCurrentWithIdleTaskSupport::onTaskUnblocked\<close>
\<close>

definition KeepRunningCurrentWithIdleTaskSupport_onTaskUnblocked ::
  "(ptr \<Rightarrow> 's \<Rightarrow> error + 's) \<Rightarrow> ('s \<Rightarrow> ptr \<times> 's) \<Rightarrow> ptr \<Rightarrow> ptr \<Rightarrow> ptr \<Rightarrow> 's
     \<Rightarrow> error + ptr \<times> 's" where
  "KeepRunningCurrentWithIdleTaskSupport_onTaskUnblocked rdy nxt idle current task s =
     (if current = nullptr then bind_err (rdy task s) (\<lambda>s1. Inr (nullptr, s1))
      else if task = nullptr then Inr (current, s)
      else bind_err (rdy task s) (\<lambda>s1.
             if current = idle then Inr (nxt s1) else Inr (current, s1)))"

text \<open>
  \<^verbatim>\<open>TaskKilled::Common::KeepRunningCurrent::onTaskKilled\<close>.  \<open>rmv\<close> is the
  \<^verbatim>\<open>remove\<close> of the concrete scheduler.  \<^verbatim>\<open>passert\<close> ends the call when its
  condition is false; \<open>killed_current\<close> is the failure of the assertion of this handler.
\<close>

definition killed_current :: error where
  "killed_current = AssertionFailed
     ''Usage Error: The current running task cannot be identical to the task being killed.''"

definition KeepRunningCurrent_onTaskKilled ::
  "(ptr \<Rightarrow> 's \<Rightarrow> error + 's) \<Rightarrow> ptr \<Rightarrow> ptr \<Rightarrow> 's \<Rightarrow> error + ptr \<times> 's" where
  "KeepRunningCurrent_onTaskKilled rmv current task s =
     (if \<not> current \<noteq> task then Inl killed_current
      else if current = nullptr then bind_err (rmv task s) (\<lambda>s1. Inr (nullptr, s1))
      else bind_err (if task \<noteq> nullptr then rmv task s else Inr s) (\<lambda>s1. Inr (current, s1)))"

text \<open>
  Modelled from the spec: \<^verbatim>\<open>remove\<close> of a policy.  No policy of the library
  implements it (only the concept \<^verbatim>\<open>SupportsRemovingTasks\<close> declares it).  The spec:
  remove a specific task from its queue, precondition: present; a violated precondition
  fails fast with an assertion.  Here for the FIFO policy.
\<close>

definition FIFO_remove :: "ptr \<Rightarrow> ptr list scheduler \<Rightarrow> error + ptr list scheduler" where
  "FIFO_remove task s =
     (if task \<in> set (queue s) then Inr (s\<lparr>queue := remove1 task (queue s)\<rparr>)
      else Inl (AssertionFailed ''remove: the task is not in the ready queue''))"

text \<open>
  The handlers of \<^verbatim>\<open>TaskQuantumUsedUp::Preemptive\<close>.  They call member functions of
  the task through \<open>current\<close>, so their state is a scheduler with its task store.
  \<open>spec\<close> is the quantum specifier.
\<close>

definition RunNextWithDemotion_onTaskQuantumUsedUp ::
  "(ptr \<Rightarrow> 'q scheduler \<Rightarrow> error + 'q scheduler) \<Rightarrow> ('q scheduler \<Rightarrow> ptr \<times> 'q scheduler)
     \<Rightarrow> ptr \<Rightarrow> 'q scheduler \<Rightarrow> error + ptr \<times> 'q scheduler" where
  "RunNextWithDemotion_onTaskQuantumUsedUp rdy nxt current s =
     bind_err (through current demote (tasks s)) (\<lambda>h.
     bind_err (rdy current (s\<lparr>tasks := h\<rparr>)) (\<lambda>s1.
     Inr (nxt s1)))"

definition RunNextWithDemotionAndQuantumRecharged_onTaskQuantumUsedUp ::
  "(nat \<Rightarrow> error + nat) \<Rightarrow> (ptr \<Rightarrow> 'q scheduler \<Rightarrow> error + 'q scheduler)
     \<Rightarrow> ('q scheduler \<Rightarrow> ptr \<times> 'q scheduler)
     \<Rightarrow> ptr \<Rightarrow> 'q scheduler \<Rightarrow> error + ptr \<times> 'q scheduler" where
  "RunNextWithDemotionAndQuantumRecharged_onTaskQuantumUsedUp spec rdy nxt current s =
     bind_err (through current demote (tasks s)) (\<lambda>h1.
     bind_err (getPriority h1 current) (\<lambda>p.
     bind_err (spec p) (\<lambda>n.
     bind_err (through current (allocateTicks n) h1) (\<lambda>h2.
     bind_err (rdy current (s\<lparr>tasks := h2\<rparr>)) (\<lambda>s1.
     Inr (nxt s1))))))"

text \<open>
  The timer interrupt handlers with quantum bookkeeping.  \<open>used_up\<close> is the
  \<^verbatim>\<open>onTaskQuantumUsedUp\<close> the handler is combined with.
\<close>

definition KeepRunningCurrentWithAnyQuantumUsedUpHandler_onTimerInterrupt ::
  "(ptr \<Rightarrow> 'q scheduler \<Rightarrow> error + ptr \<times> 'q scheduler)
     \<Rightarrow> ptr \<Rightarrow> 'q scheduler \<Rightarrow> error + ptr \<times> 'q scheduler" where
  "KeepRunningCurrentWithAnyQuantumUsedUpHandler_onTimerInterrupt used_up current s =
     bind_err (through current tick (tasks s)) (\<lambda>h.
       if hasUsedUpTimeAllotment (h current) then used_up current (s\<lparr>tasks := h\<rparr>)
       else Inr (current, s\<lparr>tasks := h\<rparr>))"

definition KeepRunningCurrentWithAnyQuantumUsedUpHandlerAndIdleTaskSupport_onTimerInterrupt ::
  "('q scheduler \<Rightarrow> ptr \<times> 'q scheduler) \<Rightarrow> ptr
     \<Rightarrow> (ptr \<Rightarrow> 'q scheduler \<Rightarrow> error + ptr \<times> 'q scheduler)
     \<Rightarrow> ptr \<Rightarrow> 'q scheduler \<Rightarrow> error + ptr \<times> 'q scheduler" where
  "KeepRunningCurrentWithAnyQuantumUsedUpHandlerAndIdleTaskSupport_onTimerInterrupt
       nxt idle used_up current s =
     (if current = idle
      then (case nxt s of (n, s1) \<Rightarrow> Inr (if n = nullptr then idle else n, s1))
      else bind_err (through current tick (tasks s)) (\<lambda>h.
             if hasUsedUpTimeAllotment (h current) then used_up current (s\<lparr>tasks := h\<rparr>)
             else Inr (current, s\<lparr>tasks := h\<rparr>)))"

section \<open>Policy extensions and the multilevel feedback queue\<close>

text \<open>
  \<^verbatim>\<open>PolicyWithEnqueueExtensions::ready\<close> runs its extensions on the task and then the
  \<^verbatim>\<open>ready\<close> of the base policy; \<^verbatim>\<open>PriorityBasedTaskQuantumAllocator\<close> is the
  extension that allocates the quantum of the task's priority.
\<close>

definition PriorityBasedTaskQuantumAllocator ::
  "(nat \<Rightarrow> error + nat) \<Rightarrow> ptr \<Rightarrow> heap \<Rightarrow> error + heap" where
  "PriorityBasedTaskQuantumAllocator spec task h =
     bind_err (getPriority h task) (\<lambda>p.
     bind_err (spec p) (\<lambda>n.
     through task (allocateTicks n) h))"

definition PolicyWithEnqueueExtensions_ready ::
  "(ptr \<Rightarrow> heap \<Rightarrow> error + heap) \<Rightarrow> (ptr \<Rightarrow> 'q scheduler \<Rightarrow> error + 'q scheduler)
     \<Rightarrow> ptr \<Rightarrow> 'q scheduler \<Rightarrow> error + 'q scheduler" where
  "PolicyWithEnqueueExtensions_ready extension base_ready task s =
     bind_err (extension task (tasks s)) (\<lambda>h. base_ready task (s\<lparr>tasks := h\<rparr>))"

text \<open>
  The policy of \<^verbatim>\<open>SampleSchedulers::MultilevelFeedbackQueue\<close> and the timer interrupt
  handler \<^verbatim>\<open>KeepRunningCurrentWithAutoDemotionOnQuantumUsedUp\<close> over it, with and
  without idle task support.
\<close>

definition MLFQ_ready ::
  "(nat \<Rightarrow> error + nat) \<Rightarrow> ptr \<Rightarrow> subqueue option list scheduler
     \<Rightarrow> error + subqueue option list scheduler" where
  "MLFQ_ready spec =
     PolicyWithEnqueueExtensions_ready (PriorityBasedTaskQuantumAllocator spec) MultiQueue_ready"

definition MLFQ_onTimerInterrupt ::
  "(nat \<Rightarrow> error + nat) \<Rightarrow> ptr \<Rightarrow> subqueue option list scheduler
     \<Rightarrow> error + ptr \<times> subqueue option list scheduler" where
  "MLFQ_onTimerInterrupt spec =
     KeepRunningCurrentWithAnyQuantumUsedUpHandler_onTimerInterrupt
       (RunNextWithDemotion_onTaskQuantumUsedUp (MLFQ_ready spec) MultiQueue_next)"

definition MLFQ_idle_onTimerInterrupt ::
  "(nat \<Rightarrow> error + nat) \<Rightarrow> ptr \<Rightarrow> ptr \<Rightarrow> subqueue option list scheduler
     \<Rightarrow> error + ptr \<times> subqueue option list scheduler" where
  "MLFQ_idle_onTimerInterrupt spec idle =
     KeepRunningCurrentWithAnyQuantumUsedUpHandlerAndIdleTaskSupport_onTimerInterrupt
       MultiQueue_next idle
       (RunNextWithDemotion_onTaskQuantumUsedUp (MLFQ_ready spec) MultiQueue_next)"

text \<open>The kernel delivers \<open>k\<close> timer interrupts in a row, each to the task the handler
  selected at the interrupt before.\<close>

fun timer_interrupts ::
  "(nat \<Rightarrow> error + nat) \<Rightarrow> nat \<Rightarrow> ptr \<Rightarrow> subqueue option list scheduler
     \<Rightarrow> error + ptr \<times> subqueue option list scheduler" where
  "timer_interrupts spec 0 current s = Inr (current, s)"
| "timer_interrupts spec (Suc k) current s =
     bind_err (timer_interrupts spec k current s) (\<lambda>(running, s1).
       MLFQ_onTimerInterrupt spec running s1)"

section \<open>The priority changed handler\<close>

text \<open>
  Modelled from the spec: \<^verbatim>\<open>adjustPosition\<close> of the multi-queue policy.  No policy
  of the library implements it (only the concept \<^verbatim>\<open>SupportsAdjustingTaskPriority\<close>
  declares it).  The spec: \<^verbatim>\<open>adjustPosition(t, old)\<close> removes \<open>t\<close> from
  \<^verbatim>\<open>queues[old]\<close> and inserts it into \<^verbatim>\<open>queues[t.priority()]\<close>; on a task that is
  not in the queue it fails fast with an assertion.
\<close>

definition ArrayMap_adjustPosition ::
  "heap \<Rightarrow> ptr \<Rightarrow> nat \<Rightarrow> subqueue option list \<Rightarrow> error + subqueue option list" where
  "ArrayMap_adjustPosition h task oldPriority queues =
     (if length queues \<le> oldPriority then Inl OutOfBounds
      else case queues ! oldPriority of
        None \<Rightarrow> Inl (AssertionFailed ''adjustPosition: the task is not in the ready queue'')
      | Some q \<Rightarrow>
          if task \<notin> set q
          then Inl (AssertionFailed ''adjustPosition: the task is not in the ready queue'')
          else ArrayMap_ready h task (queues[oldPriority := Some (remove1 task q)]))"

definition MultiQueue_adjustPosition ::
  "ptr \<Rightarrow> nat \<Rightarrow> subqueue option list scheduler \<Rightarrow> error + subqueue option list scheduler" where
  "MultiQueue_adjustPosition task oldPriority s =
     bind_err (ArrayMap_adjustPosition (tasks s) task oldPriority (queue s))
       (\<lambda>qs. Inr (s\<lparr>queue := qs\<rparr>))"

text \<open>
  \<^verbatim>\<open>TaskPriorityChanged::Preemptive::Balance::onTaskPriorityChanged\<close>.  \<open>adj\<close> is the
  \<^verbatim>\<open>adjustPosition\<close> of the concrete scheduler.

  The condition of the handler is
  \<^verbatim>\<open>AnyPrioritizableTask(task) > AnyPrioritizableTask(current)\<close>, with the two pointers
  as the arguments.  The class template takes its argument by \<^verbatim>\<open>const Task&\<close>, so it
  is instantiated at the pointer type, and of its two \<^verbatim>\<open>operator>\<close> only the one for
  implicitly prioritizable types applies there: it compares the wrapped values, which are
  the pointers.  (\<^verbatim>\<open>BridgedGreaterComparator\<close> in the same header dereferences its
  arguments before it wraps them.)  The condition is therefore the order of the two
  addresses.
\<close>

definition Balance_onTaskPriorityChanged ::
  "(ptr \<Rightarrow> nat \<Rightarrow> 's \<Rightarrow> error + 's) \<Rightarrow> (ptr \<Rightarrow> 's \<Rightarrow> error + 's) \<Rightarrow> ('s \<Rightarrow> ptr \<times> 's)
     \<Rightarrow> ptr \<Rightarrow> ptr \<Rightarrow> nat \<Rightarrow> 's \<Rightarrow> error + ptr \<times> 's" where
  "Balance_onTaskPriorityChanged adj rdy nxt current task oldPriority s =
     bind_err (adj task oldPriority s) (\<lambda>s1.
       if current < task
       then bind_err (rdy current s1) (\<lambda>s2. Inr (nxt s2))
       else Inr (current, s1))"

section \<open>The prioritized single-queue policies\<close>

text \<open>
  The comparators of \<^verbatim>\<open>AnyPrioritizableTask\<close> for a task that is prioritizable by its
  priority: they dereference both pointers and compare \<^verbatim>\<open>getPriority()\<close>.
\<close>

definition BridgedGreaterComparator :: "heap \<Rightarrow> ptr \<Rightarrow> ptr \<Rightarrow> bool" where
  "BridgedGreaterComparator h lhs rhs = (priority (h rhs) < priority (h lhs))"

definition BridgedLessComparator :: "heap \<Rightarrow> ptr \<Rightarrow> ptr \<Rightarrow> bool" where
  "BridgedLessComparator h lhs rhs = (priority (h lhs) < priority (h rhs))"

text \<open>
  Modelled from the spec: \<^verbatim>\<open>LinkedList\<close> (LinkedList.hpp of the TinkerLibrary
  dependency, which is not part of the repository).  \<^verbatim>\<open>insert(item, comparator)\<close> with the greater
  comparator keeps the list in descending order and is a stable insertion that preserves
  first-come-first-served for ties: the item goes in front of the first element it
  outranks.  (EarliestDeadlineFirstSchedulerTest expects this at \<open>t = 20\<close>: of two tasks
  with the same deadline the one enqueued earlier is dequeued first.)  \<^verbatim>\<open>dequeue\<close>
  removes the head.
\<close>

fun LinkedList_insert :: "(ptr \<Rightarrow> ptr \<Rightarrow> bool) \<Rightarrow> ptr \<Rightarrow> ptr list \<Rightarrow> ptr list" where
  "LinkedList_insert cmp item [] = [item]"
| "LinkedList_insert cmp item (x # xs) =
     (if cmp item x then item # x # xs else x # LinkedList_insert cmp item xs)"

text \<open>\<^verbatim>\<open>PrioritizedSingleQueue::Normal::LinkedListImp\<close>\<close>

definition LinkedListImp_next :: "ptr list \<Rightarrow> ptr \<times> ptr list" where
  "LinkedListImp_next q = (if q = [] then (nullptr, q) else (hd q, tl q))"

definition LinkedListImp_ready :: "heap \<Rightarrow> ptr \<Rightarrow> ptr list \<Rightarrow> ptr list" where
  "LinkedListImp_ready h task q = LinkedList_insert (BridgedGreaterComparator h) task q"

text \<open>
  \<^verbatim>\<open>PrioritizedSingleQueue::Normal::StlPriorityQueueImp\<close> keeps a
  \<^verbatim>\<open>std::priority_queue\<close> over a \<^verbatim>\<open>std::vector\<close>, which is not part of the
  repository either.  By the C++ standard \<^verbatim>\<open>push\<close> is \<^verbatim>\<open>push_back\<close> followed by
  \<^verbatim>\<open>std::push_heap\<close>, \<^verbatim>\<open>pop\<close> is \<^verbatim>\<open>std::pop_heap\<close> followed by
  \<^verbatim>\<open>pop_back\<close>, and \<^verbatim>\<open>top\<close> is \<^verbatim>\<open>front\<close>.  The two heap algorithms are
  modelled on libstdc++ (bits/stl_heap.h): \<open>push_heap_loop\<close> is \<^verbatim>\<open>__push_heap\<close>,
  which moves the hole up while the parent is less than the value; \<open>adjust_heap\<close> is
  \<^verbatim>\<open>__adjust_heap\<close>, which moves the hole down to a leaf along the larger children and
  then pushes the value up from there.
\<close>

function push_heap_loop ::
  "(ptr \<Rightarrow> ptr \<Rightarrow> bool) \<Rightarrow> ptr list \<Rightarrow> nat \<Rightarrow> nat \<Rightarrow> ptr \<Rightarrow> ptr list" where
  "push_heap_loop cmp first holeIndex topIndex v =
     (if topIndex < holeIndex \<and> cmp (first ! ((holeIndex - 1) div 2)) v
      then push_heap_loop cmp (first[holeIndex := first ! ((holeIndex - 1) div 2)])
             ((holeIndex - 1) div 2) topIndex v
      else first[holeIndex := v])"
  by pat_completeness auto
termination
  by (relation "measure (\<lambda>(cmp, first, holeIndex, topIndex, v). holeIndex)") auto

function adjust_heap_loop ::
  "(ptr \<Rightarrow> ptr \<Rightarrow> bool) \<Rightarrow> ptr list \<Rightarrow> nat \<Rightarrow> nat \<Rightarrow> nat \<Rightarrow> ptr list \<times> nat \<times> nat" where
  "adjust_heap_loop cmp first holeIndex secondChild len =
     (if secondChild < (len - 1) div 2
      then (let sc = 2 * (secondChild + 1);
                sc' = (if cmp (first ! sc) (first ! (sc - 1)) then sc - 1 else sc)
            in adjust_heap_loop cmp (first[holeIndex := first ! sc']) sc' sc' len)
      else (first, holeIndex, secondChild))"
  by pat_completeness auto
termination
  by (relation "measure (\<lambda>(cmp, first, holeIndex, secondChild, len). len - secondChild)")
     (auto simp: Let_def)

definition adjust_heap ::
  "(ptr \<Rightarrow> ptr \<Rightarrow> bool) \<Rightarrow> ptr list \<Rightarrow> nat \<Rightarrow> nat \<Rightarrow> ptr \<Rightarrow> ptr list" where
  "adjust_heap cmp first holeIndex len v =
     (case adjust_heap_loop cmp first holeIndex holeIndex len of
        (first1, hole1, secondChild) \<Rightarrow>
          if len mod 2 = 0 \<and> secondChild = (len - 2) div 2
          then push_heap_loop cmp
                 (first1[hole1 := first1 ! (2 * (secondChild + 1) - 1)])
                 (2 * (secondChild + 1) - 1) holeIndex v
          else push_heap_loop cmp first1 hole1 holeIndex v)"

definition priority_queue_push :: "(ptr \<Rightarrow> ptr \<Rightarrow> bool) \<Rightarrow> ptr \<Rightarrow> ptr list \<Rightarrow> ptr list" where
  "priority_queue_push cmp x c =
     push_heap_loop cmp (c @ [x]) (length (c @ [x]) - 1) 0 x"

definition priority_queue_pop :: "(ptr \<Rightarrow> ptr \<Rightarrow> bool) \<Rightarrow> ptr list \<Rightarrow> ptr list" where
  "priority_queue_pop cmp c =
     butlast (if 1 < length c
              then adjust_heap cmp (c[length c - 1 := c ! 0]) 0 (length c - 1)
                     (c ! (length c - 1))
              else c)"

definition StlPriorityQueueImp_next :: "heap \<Rightarrow> ptr list \<Rightarrow> ptr \<times> ptr list" where
  "StlPriorityQueueImp_next h c =
     (if c = [] then (nullptr, c)
      else (c ! 0, priority_queue_pop (BridgedLessComparator h) c))"

definition StlPriorityQueueImp_ready :: "heap \<Rightarrow> ptr \<Rightarrow> ptr list \<Rightarrow> ptr list" where
  "StlPriorityQueueImp_ready h task c = priority_queue_push (BridgedLessComparator h) task c"

text \<open>
  A sequence of calls of the two primitives of a policy: \<open>run\<close> returns the tasks that
  the \<^verbatim>\<open>next()\<close> calls dequeued, in order (a \<^verbatim>\<open>next()\<close> on an empty queue
  dequeues nothing), and the queue at the end; \<open>readied\<close> is the tasks handed to
  \<^verbatim>\<open>ready()\<close>, in order.  \<open>by_rank\<close>: the queue is in descending order of priority.
\<close>

datatype call = Ready ptr | Next

fun run :: "(ptr \<Rightarrow> ptr list \<Rightarrow> ptr list) \<Rightarrow> (ptr list \<Rightarrow> ptr \<times> ptr list) \<Rightarrow> call list
    \<Rightarrow> ptr list \<Rightarrow> ptr list \<times> ptr list" where
  "run rdy nxt [] q = ([], q)"
| "run rdy nxt (Ready t # calls) q = run rdy nxt calls (rdy t q)"
| "run rdy nxt (Next # calls) q =
     (case nxt q of (t, q') \<Rightarrow>
        case run rdy nxt calls q' of (out, rest) \<Rightarrow> (if q = [] then out else t # out, rest))"

fun readied :: "call list \<Rightarrow> ptr list" where
  "readied [] = []"
| "readied (Ready t # calls) = t # readied calls"
| "readied (Next # calls) = readied calls"

definition by_rank :: "heap \<Rightarrow> ptr list \<Rightarrow> bool" where
  "by_rank h q = sorted_wrt (\<lambda>a b. priority (h b) \<le> priority (h a)) q"

text \<open>
  The formula of the specification (property P6) for the priority after \<open>k\<close> timer
  interrupts, in the specification's words: \<open>max(floor, initial - floor(k / q))\<close>.
\<close>

definition P6_priority :: "nat \<Rightarrow> nat \<Rightarrow> nat \<Rightarrow> nat \<Rightarrow> nat" where
  "P6_priority floor initial q k = max floor (initial - k div q)"

text \<open>No level of the multi-queue offers a task: no other task is ready.\<close>

definition all_idle :: "subqueue option list \<Rightarrow> bool" where
  "all_idle queues = (\<forall>l < length queues. idle_level (queues ! l))"

section \<open>Basic facts\<close>

lemma bind_err_Inl [simp]: "bind_err (Inl e) f = Inl e"
  by (simp add: bind_err_def)

lemma bind_err_Inr [simp]: "bind_err (Inr x) f = f x"
  by (simp add: bind_err_def)

lemma StlQueue_next_Nil [simp]: "StlQueue_next [] = (nullptr, [])"
  by (simp add: StlQueue_next_def)

lemma StlQueue_next_Cons [simp]: "StlQueue_next (t # q) = (t, q)"
  by (simp add: StlQueue_next_def)

section \<open>Yielding\<close>

text \<open>
  Claim C8.  \<^verbatim>\<open>onTaskYielded(current)\<close> enqueues \<open>current\<close> with \<^verbatim>\<open>ready\<close> and
  returns what \<^verbatim>\<open>next\<close> then dequeues.  Over the FIFO policy this is the old front of
  the queue, with \<open>current\<close> now at the back; and when the ready queue is empty at the
  call, the handler returns \<open>current\<close> itself and leaves the queue empty again.
\<close>

theorem onTaskYielded_roundtrip:
  "RunNext_onTaskYielded FIFO_ready FIFO_next current s
     = Inr (FIFO_next (s\<lparr>queue := StlQueue_ready current (queue s)\<rparr>))
   \<and> RunNext_onTaskYielded FIFO_ready FIFO_next current s
     = Inr (case queue s of [] \<Rightarrow> (current, s) | t # q \<Rightarrow> (t, s\<lparr>queue := q @ [current]\<rparr>))
   \<and> (queue s = [] \<longrightarrow>
        RunNext_onTaskYielded FIFO_ready FIFO_next current s = Inr (current, s))"
  by (cases "queue s")
     (simp_all add: RunNext_onTaskYielded_def FIFO_ready_def FIFO_next_def StlQueue_ready_def)

theorem onTaskYielded_roundtrip_witness:
  "queue \<lparr>tasks = (\<lambda>_. \<lparr>ident = 0, priority = 0, ticks = 0\<rparr>), queue = []\<rparr> = []
   \<and> RunNext_onTaskYielded FIFO_ready FIFO_next 1
        \<lparr>tasks = (\<lambda>_. \<lparr>ident = 0, priority = 0, ticks = 0\<rparr>), queue = []\<rparr>
     = Inr (1, \<lparr>tasks = (\<lambda>_. \<lparr>ident = 0, priority = 0, ticks = 0\<rparr>), queue = []\<rparr>)"
  using onTaskYielded_roundtrip
    [of 1 "\<lparr>tasks = (\<lambda>_. \<lparr>ident = 0, priority = 0, ticks = 0\<rparr>), queue = []\<rparr>",
     THEN conjunct2, THEN conjunct2]
  by simp

section \<open>The multi-queue policies serve the highest level first\<close>

lemma scan_found:
  "\<forall>x \<in> set pre. idle_level x \<Longrightarrow> t \<noteq> nullptr \<Longrightarrow>
   ArrayMap_scan (pre @ Some (t # q) # post) = (t, pre @ Some q # post)"
  by (induction pre) (auto simp: idle_level_def)

lemma scan_all_idle:
  "\<forall>x \<in> set qs. idle_level x \<Longrightarrow> ArrayMap_scan qs = (nullptr, qs)"
  by (induction qs) (auto simp: idle_level_def)

lemma scan_null_idle:
  "no_null qs \<Longrightarrow> fst (ArrayMap_scan qs) = nullptr \<Longrightarrow> \<forall>x \<in> set qs. idle_level x"
proof (induction qs)
  case Nil
  then show ?case by simp
next
  case (Cons x qs)
  then show ?case
    by (cases x; cases "the x") (auto simp: idle_level_def no_null_def split: prod.splits if_splits)
qed

lemma ArrayMap_next_found:
  assumes "l < length queues" "queues ! l = Some (t # q)" "t \<noteq> nullptr"
    and "\<forall>l'. l < l' \<and> l' < length queues \<longrightarrow> idle_level (queues ! l')"
  shows "ArrayMap_next queues = (t, queues[l := Some q])"
proof -
  have split: "queues = take l queues @ Some (t # q) # drop (Suc l) queues"
    using assms(1,2) by (metis id_take_nth_drop)
  have idle: "\<forall>x \<in> set (rev (drop (Suc l) queues)). idle_level x"
  proof
    fix x assume "x \<in> set (rev (drop (Suc l) queues))"
    then obtain i where "i < length queues - Suc l" "x = drop (Suc l) queues ! i"
      by (auto simp: in_set_conv_nth)
    then show "idle_level x" using assms(4) by simp
  qed
  have "rev queues = rev (drop (Suc l) queues) @ Some (t # q) # rev (take l queues)"
    by (subst split) simp
  then have "ArrayMap_scan (rev queues)
      = (t, rev (drop (Suc l) queues) @ Some q # rev (take l queues))"
    using scan_found [OF idle assms(3)] by simp
  then show ?thesis
    using assms(1) by (simp add: ArrayMap_next_def upd_conv_take_nth_drop)
qed

lemma ArrayMap_next_null:
  assumes "no_null queues"
  shows "(fst (ArrayMap_next queues) = nullptr) = (\<forall>l < length queues. idle_level (queues ! l))"
proof
  assume "fst (ArrayMap_next queues) = nullptr"
  then have "fst (ArrayMap_scan (rev queues)) = nullptr"
    by (simp add: ArrayMap_next_def split: prod.splits)
  moreover have "no_null (rev queues)" using assms by (simp add: no_null_def)
  ultimately have "\<forall>x \<in> set (rev queues). idle_level x" by (rule scan_null_idle [rotated])
  then show "\<forall>l < length queues. idle_level (queues ! l)" by simp
next
  assume "\<forall>l < length queues. idle_level (queues ! l)"
  then have "\<forall>x \<in> set (rev queues). idle_level x" by (auto simp: in_set_conv_nth)
  then show "fst (ArrayMap_next queues) = nullptr"
    by (simp add: ArrayMap_next_def scan_all_idle)
qed

lemma pop_level_absent: "\<forall>e \<in> set m. fst e \<noteq> p \<Longrightarrow> pop_level p m = m"
  by (induction m) (auto simp: pop_level_def)

lemma StlMap_next_found:
  "descending m \<Longrightarrow> (p, t # q) \<in> set m \<Longrightarrow> t \<noteq> nullptr \<Longrightarrow>
   \<forall>e \<in> set m. p < fst e \<longrightarrow> snd e = [] \<Longrightarrow>
   StlMap_next m = (t, pop_level p m)"
proof (induction m)
  case Nil
  then show ?case by simp
next
  case (Cons e m)
  obtain k x where e: "e = (k, x)" by (cases e)
  have below: "\<forall>e' \<in> set m. fst e' < k"
    using Cons.prems(1) by (auto simp: descending_def e)
  show ?case
  proof (cases "k = p")
    case True
    have "(p, t # q) \<notin> set m" using below True by force
    then have x: "x = t # q" using Cons.prems(2) e True by simp
    have "pop_level p m = m" using below True by (intro pop_level_absent) force
    then show ?thesis using x e True Cons.prems(3) by (simp add: pop_level_def)
  next
    case False
    then have mem: "(p, t # q) \<in> set m" using Cons.prems(2) e by simp
    then have "p < k" using below by force
    then have x: "x = []" using Cons.prems(4) e by simp
    have "descending m" using Cons.prems(1) by (simp add: descending_def)
    then have "StlMap_next m = (t, pop_level p m)"
      using Cons.IH mem Cons.prems(3,4) by simp
    then show ?thesis using x e False by (simp add: pop_level_def)
  qed
qed

lemma StlMap_next_all_empty: "\<forall>e \<in> set m. snd e = [] \<Longrightarrow> StlMap_next m = (nullptr, m)"
  by (induction m) auto

lemma StlMap_next_null_empty:
  "no_null_map m \<Longrightarrow> fst (StlMap_next m) = nullptr \<Longrightarrow> \<forall>e \<in> set m. snd e = []"
proof (induction m)
  case Nil
  then show ?case by simp
next
  case (Cons e m)
  obtain k x where e: "e = (k, x)" by (cases e)
  show ?case using Cons e
    by (cases x) (auto simp: no_null_map_def split: prod.splits if_splits)
qed

lemma StlMap_next_null:
  "no_null_map m \<Longrightarrow> (fst (StlMap_next m) = nullptr) = (\<forall>e \<in> set m. snd e = [])"
  using StlMap_next_null_empty StlMap_next_all_empty by (metis fst_conv)

lemma no_null_replicate: "no_null (replicate n None)"
  by (simp add: no_null_def)

lemma no_null_ready:
  assumes "no_null queues" and "ArrayMap_ready h task queues = Inr queues'"
  shows "no_null queues'"
proof -
  define p where "p = priority (h task)"
  define q0 where "q0 = (case queues ! p of None \<Rightarrow> [] | Some q \<Rightarrow> q)"
  have t: "task \<noteq> nullptr" and b: "p < length queues"
    and q': "queues' = queues[p := Some (q0 @ [task])]"
    using assms(2)
    by (auto simp: ArrayMap_ready_def getPriority_def StlQueue_ready_def p_def q0_def
             split: if_splits)
  have "nullptr \<notin> set q0"
  proof (cases "queues ! p")
    case None
    then show ?thesis by (simp add: q0_def)
  next
    case (Some q)
    then have "Some q \<in> set queues" using b by (metis nth_mem)
    then show ?thesis using assms(1) Some by (simp add: q0_def no_null_def)
  qed
  then have "nullptr \<notin> set (q0 @ [task])" using t by auto
  moreover have "set queues' \<subseteq> insert (Some (q0 @ [task])) (set queues)"
    unfolding q' by (rule set_update_subset_insert)
  ultimately show ?thesis using assms(1) unfolding no_null_def by blast
qed

lemma no_null_scan: "no_null qs \<Longrightarrow> no_null (snd (ArrayMap_scan qs))"
proof (induction qs rule: ArrayMap_scan.induct)
  case 1
  then show ?case by simp
next
  case (2 rest)
  then show ?case by (auto simp: no_null_def split: prod.splits)
next
  case (3 q rest)
  then show ?case
    by (cases q) (auto simp: no_null_def split: prod.splits)
qed

lemma no_null_next: "no_null queues \<Longrightarrow> no_null (snd (ArrayMap_next queues))"
proof -
  assume "no_null queues"
  then have "no_null (rev queues)" by (simp add: no_null_def)
  then have "no_null (snd (ArrayMap_scan (rev queues)))" by (rule no_null_scan)
  then show ?thesis by (simp add: ArrayMap_next_def no_null_def split: prod.splits)
qed

lemma enqueue_keys: "set (map fst (StlMap_enqueue p task m)) = insert p (set (map fst m))"
  by (induction p task m rule: StlMap_enqueue.induct) auto

lemma descending_enqueue: "descending m \<Longrightarrow> descending (StlMap_enqueue p task m)"
proof (induction m)
  case Nil
  then show ?case by (simp add: descending_def)
next
  case (Cons e m)
  obtain k x where e: "e = (k, x)" by (cases e)
  have tail: "descending m" using Cons.prems by (simp add: descending_def)
  have below: "\<forall>k' \<in> set (map fst m). k' < k" using Cons.prems by (auto simp: descending_def e)
  show ?case
  proof (cases "p = k \<or> k < p")
    case True
    then show ?thesis using Cons.prems e by (auto simp: descending_def)
  next
    case False
    then have "\<forall>k' \<in> set (map fst (StlMap_enqueue p task m)). k' < k"
      using below unfolding enqueue_keys by simp
    then show ?thesis using False e Cons.IH [OF tail] by (auto simp: descending_def)
  qed
qed

lemma no_null_map_enqueue:
  "no_null_map m \<Longrightarrow> task \<noteq> nullptr \<Longrightarrow> no_null_map (StlMap_enqueue p task m)"
  by (induction p task m rule: StlMap_enqueue.induct)
     (auto simp: no_null_map_def StlQueue_ready_def)

lemma StlMap_next_keys: "map fst (snd (StlMap_next m)) = map fst m"
  by (induction m) (auto split: prod.splits)

lemma descending_next: "descending m \<Longrightarrow> descending (snd (StlMap_next m))"
  by (simp add: descending_def StlMap_next_keys)

lemma no_null_map_next: "no_null_map m \<Longrightarrow> no_null_map (snd (StlMap_next m))"
proof (induction m)
  case Nil
  then show ?case by simp
next
  case (Cons e m)
  obtain k x where e: "e = (k, x)" by (cases e)
  show ?case using Cons e
    by (cases x) (auto simp: no_null_map_def split: prod.splits)
qed

text \<open>No state of a multi-queue policy holds a null entry, and the map is in the order of
  its keys.\<close>

lemma reachable_array_no_null: "reachable_array queues \<Longrightarrow> no_null queues"
  by (induction rule: reachable_array.induct)
     (auto intro: no_null_replicate no_null_ready no_null_next)

lemma reachable_map_invariant: "reachable_map m \<Longrightarrow> descending m \<and> no_null_map m"
proof (induction rule: reachable_map.induct)
  case constructed
  show ?case by (simp add: descending_def no_null_map_def)
next
  case (after_ready m h task m')
  then have "task \<noteq> nullptr" and "m' = StlMap_enqueue (priority (h task)) task m"
    by (auto simp: StlMap_ready_def getPriority_def split: if_splits)
  then show ?case using after_ready.IH by (simp add: descending_enqueue no_null_map_enqueue)
next
  case (after_next m)
  then show ?case by (simp add: descending_next no_null_map_next)
qed

text \<open>
  Claim C1.  In every state of the two multi-queue policies, \<^verbatim>\<open>next()\<close> dequeues the
  front of the non-empty sub-queue of the highest level: if level \<open>l\<close> holds \<open>t\<close> at its
  front and every level above \<open>l\<close> offers nothing, \<open>t\<close> is returned, it is not null, and
  only the sub-queue of \<open>l\<close> changes.  \<^verbatim>\<open>next()\<close> returns null exactly when every
  sub-queue is empty or absent.
\<close>

theorem multiqueue_next_highest_first:
  assumes "reachable_array queues" and "reachable_map m"
  shows "(\<forall>l t q. l < length queues \<and> queues ! l = Some (t # q)
             \<and> (\<forall>l'. l < l' \<and> l' < length queues \<longrightarrow> idle_level (queues ! l'))
           \<longrightarrow> ArrayMap_next queues = (t, queues[l := Some q]) \<and> t \<noteq> nullptr)
       \<and> ((fst (ArrayMap_next queues) = nullptr) = (\<forall>l < length queues. idle_level (queues ! l)))
       \<and> (\<forall>p t q. (p, t # q) \<in> set m \<and> (\<forall>e \<in> set m. p < fst e \<longrightarrow> snd e = [])
           \<longrightarrow> StlMap_next m = (t, pop_level p m) \<and> t \<noteq> nullptr)
       \<and> ((fst (StlMap_next m) = nullptr) = (\<forall>e \<in> set m. snd e = []))"
proof -
  have a: "no_null queues" using assms(1) by (rule reachable_array_no_null)
  have b: "descending m" and c: "no_null_map m"
    using reachable_map_invariant [OF assms(2)] by simp_all
  show ?thesis
  proof (intro conjI allI impI)
    fix l t q
    assume h: "l < length queues \<and> queues ! l = Some (t # q)
               \<and> (\<forall>l'. l < l' \<and> l' < length queues \<longrightarrow> idle_level (queues ! l'))"
    then have "Some (t # q) \<in> set queues" by (metis nth_mem)
    then show nn: "t \<noteq> nullptr" using a by (force simp: no_null_def)
    show "ArrayMap_next queues = (t, queues[l := Some q])"
      using h nn by (intro ArrayMap_next_found) simp_all
  next
    show "(fst (ArrayMap_next queues) = nullptr) = (\<forall>l < length queues. idle_level (queues ! l))"
      using a by (rule ArrayMap_next_null)
  next
    fix p t q
    assume h: "(p, t # q) \<in> set m \<and> (\<forall>e \<in> set m. p < fst e \<longrightarrow> snd e = [])"
    then show nn: "t \<noteq> nullptr" using c by (force simp: no_null_map_def)
    show "StlMap_next m = (t, pop_level p m)"
      using b h nn by (intro StlMap_next_found [where q = q]) simp_all
  next
    show "(fst (StlMap_next m) = nullptr) = (\<forall>e \<in> set m. snd e = [])"
      using c by (rule StlMap_next_null)
  qed
qed

theorem multiqueue_next_highest_first_witness:
  "ArrayMap_next [None, Some [5], None, Some [7, 8], None]
     = (7, [None, Some [5], None, Some [8], None])
   \<and> StlMap_next [(3, [7, 8]), (1, [5])] = (7, [(3, [8]), (1, [5])])"
proof -
  let ?h = "\<lambda>a :: ptr. \<lparr>ident = a, priority = (if a = 5 then 1 else 3), ticks = 0\<rparr>"
  let ?qs = "[None, Some [5], None, Some [7, 8], None] :: subqueue option list"
  let ?m = "[(3, [7, 8]), (1, [5])] :: (nat \<times> subqueue) list"
  have "reachable_array (replicate 5 None)" by (rule reachable_array.constructed)
  then have "reachable_array [None, Some [5], None, None, None]"
    by (rule reachable_array.after_ready [where h = ?h and task = 5])
       (simp add: ArrayMap_ready_def getPriority_def StlQueue_ready_def nullptr_def
          numeral_eq_Suc)
  then have "reachable_array [None, Some [5], None, Some [7], None]"
    by (rule reachable_array.after_ready [where h = ?h and task = 7])
       (simp add: ArrayMap_ready_def getPriority_def StlQueue_ready_def nullptr_def)
  then have a: "reachable_array ?qs"
    by (rule reachable_array.after_ready [where h = ?h and task = 8])
       (simp add: ArrayMap_ready_def getPriority_def StlQueue_ready_def nullptr_def)
  have "reachable_map [(1, [5])]"
    by (rule reachable_map.after_ready [OF reachable_map.constructed, where h = ?h and task = 5])
       (simp add: StlMap_ready_def getPriority_def StlQueue_ready_def nullptr_def)
  then have "reachable_map [(3, [7]), (1, [5])]"
    by (rule reachable_map.after_ready [where h = ?h and task = 7])
       (simp add: StlMap_ready_def getPriority_def StlQueue_ready_def nullptr_def)
  then have b: "reachable_map ?m"
    by (rule reachable_map.after_ready [where h = ?h and task = 8])
       (simp add: StlMap_ready_def getPriority_def StlQueue_ready_def nullptr_def)
  have i: "\<forall>l'. 3 < l' \<and> l' < length ?qs \<longrightarrow> idle_level (?qs ! l')"
  proof (intro allI impI)
    fix l' :: nat assume "3 < l' \<and> l' < length ?qs"
    then have "l' = 4" by simp
    then show "idle_level (?qs ! l')" by (simp add: idle_level_def)
  qed
  have j: "\<forall>e \<in> set ?m. 3 < fst e \<longrightarrow> snd e = []" by simp
  have 1: "ArrayMap_next ?qs = (7, ?qs[3 := Some [8]]) \<and> 7 \<noteq> nullptr"
    using multiqueue_next_highest_first [OF a b, THEN conjunct1, rule_format, of 3 7 "[8]"] i
    by simp
  have 2: "StlMap_next ?m = (7, pop_level 3 ?m) \<and> 7 \<noteq> nullptr"
    using multiqueue_next_highest_first
      [OF a b, THEN conjunct2, THEN conjunct2, THEN conjunct1, rule_format, of 3 7 "[8]"] j
    by (simp add: nullptr_def pop_level_def)
  show ?thesis using 1 2 by (simp add: pop_level_def)
qed

lemma MultiQueue_next_all_idle:
  "\<forall>l < length (queue s). idle_level (queue s ! l) \<Longrightarrow> MultiQueue_next s = (nullptr, s)"
proof -
  assume "\<forall>l < length (queue s). idle_level (queue s ! l)"
  then have "\<forall>x \<in> set (rev (queue s)). idle_level x" by (auto simp: in_set_conv_nth)
  then show ?thesis by (simp add: MultiQueue_next_def ArrayMap_next_def scan_all_idle)
qed

section \<open>Idle-aware handlers\<close>




section \<open>The cooperative idle-aware unblock handler\<close>

text \<open>
  Claim C7, as amended.  On a terminating call with \<open>current\<close> and \<open>task\<close> non-null the
  handler enqueues \<open>task\<close>; if \<open>current\<close> is not the idle task it returns \<open>current\<close>,
  and if \<open>current\<close> is the idle task it returns what \<^verbatim>\<open>next()\<close> dequeues after
  the enqueue.  Over the FIFO policy that is the front of the queue, which is \<open>task\<close>
  when the ready queue was empty at the call.
\<close>

theorem cooperative_unblock_idle_aware:
  assumes "current \<noteq> nullptr" and "task \<noteq> nullptr"
  shows "KeepRunningCurrentWithIdleTaskSupport_onTaskUnblocked rdy nxt idle current task s
           = bind_err (rdy task s) (\<lambda>s1. if current = idle then Inr (nxt s1) else Inr (current, s1))
       \<and> (current \<noteq> idle \<longrightarrow>
            KeepRunningCurrentWithIdleTaskSupport_onTaskUnblocked FIFO_ready FIFO_next
              idle current task fs
            = Inr (current, fs\<lparr>queue := queue fs @ [task]\<rparr>))
       \<and> (current = idle \<longrightarrow>
            KeepRunningCurrentWithIdleTaskSupport_onTaskUnblocked FIFO_ready FIFO_next
              idle current task fs
            = Inr (hd (queue fs @ [task]), fs\<lparr>queue := tl (queue fs @ [task])\<rparr>))
       \<and> (current = idle \<and> queue fs = [] \<longrightarrow>
            KeepRunningCurrentWithIdleTaskSupport_onTaskUnblocked FIFO_ready FIFO_next
              idle current task fs
            = Inr (task, fs))"
  using assms
  by (simp add: KeepRunningCurrentWithIdleTaskSupport_onTaskUnblocked_def FIFO_ready_def
        FIFO_next_def StlQueue_ready_def StlQueue_next_def)

theorem cooperative_unblock_idle_aware_witness:
  "KeepRunningCurrentWithIdleTaskSupport_onTaskUnblocked FIFO_ready FIFO_next 9 9 3
       \<lparr>tasks = (\<lambda>_. \<lparr>ident = 0, priority = 0, ticks = 0\<rparr>), queue = []\<rparr>
     = Inr (3, \<lparr>tasks = (\<lambda>_. \<lparr>ident = 0, priority = 0, ticks = 0\<rparr>), queue = []\<rparr>)"
proof -
  have a: "(9 :: ptr) \<noteq> nullptr" and b: "(3 :: ptr) \<noteq> nullptr" by (simp_all add: nullptr_def)
  show ?thesis
    using cooperative_unblock_idle_aware
      [OF a b, where idle = 9
         and fs = "\<lparr>tasks = (\<lambda>_. \<lparr>ident = 0, priority = 0, ticks = 0\<rparr>), queue = []\<rparr>",
       THEN conjunct2, THEN conjunct2, THEN conjunct2]
    by simp
qed

text \<open>
  The claim as stated fails in a group operation: the idle task 9 is running, task 2 is
  unblocked by an intermediate call, and the terminating call that unblocks task 3 returns
  task 2.
\<close>

theorem cooperative_unblock_idle_counterexample:
  "KeepRunningCurrentWithIdleTaskSupport_onTaskUnblocked FIFO_ready FIFO_next 9 nullptr 2
       \<lparr>tasks = (\<lambda>_. \<lparr>ident = 0, priority = 0, ticks = 0\<rparr>), queue = []\<rparr>
     = Inr (nullptr, \<lparr>tasks = (\<lambda>_. \<lparr>ident = 0, priority = 0, ticks = 0\<rparr>), queue = [2]\<rparr>)
   \<and> KeepRunningCurrentWithIdleTaskSupport_onTaskUnblocked FIFO_ready FIFO_next 9 9 3
       \<lparr>tasks = (\<lambda>_. \<lparr>ident = 0, priority = 0, ticks = 0\<rparr>), queue = [2]\<rparr>
     = Inr (2, \<lparr>tasks = (\<lambda>_. \<lparr>ident = 0, priority = 0, ticks = 0\<rparr>), queue = [3]\<rparr>)
   \<and> (2 :: ptr) \<noteq> 3 \<and> (9 :: ptr) \<noteq> nullptr \<and> (3 :: ptr) \<noteq> nullptr"
  by (simp add: KeepRunningCurrentWithIdleTaskSupport_onTaskUnblocked_def FIFO_ready_def
        FIFO_next_def StlQueue_ready_def nullptr_def)

section \<open>The task killed handler\<close>

text \<open>
  Claim C9.  \<^verbatim>\<open>onTaskKilled(current, task)\<close> fails its assertion when \<open>current\<close>
  equals \<open>task\<close>, both null included.  Otherwise the assertion holds: an intermediate call
  (\<open>current\<close> null) removes \<open>task\<close> and returns null; a terminating call returns
  \<open>current\<close>, after removing \<open>task\<close> when \<open>task\<close> is not null.  So, unless
  \<^verbatim>\<open>remove\<close> itself ends in that same failure, the call ends in the failure of the
  assertion exactly when \<open>current\<close> equals \<open>task\<close>.
\<close>

theorem onTaskKilled_assertion:
  "(current = task \<longrightarrow> KeepRunningCurrent_onTaskKilled rmv current task s = Inl killed_current)
   \<and> (current \<noteq> task \<and> current = nullptr \<longrightarrow>
        KeepRunningCurrent_onTaskKilled rmv current task s
          = bind_err (rmv task s) (\<lambda>s1. Inr (nullptr, s1)))
   \<and> (current \<noteq> task \<and> current \<noteq> nullptr \<and> task \<noteq> nullptr \<longrightarrow>
        KeepRunningCurrent_onTaskKilled rmv current task s
          = bind_err (rmv task s) (\<lambda>s1. Inr (current, s1)))
   \<and> (current \<noteq> nullptr \<and> task = nullptr \<longrightarrow>
        KeepRunningCurrent_onTaskKilled rmv current task s = Inr (current, s))
   \<and> (rmv task s \<noteq> Inl killed_current \<longrightarrow>
        (KeepRunningCurrent_onTaskKilled rmv current task s = Inl killed_current)
          = (current = task))"
  by (cases "rmv task s") (auto simp: KeepRunningCurrent_onTaskKilled_def)

theorem onTaskKilled_assertion_witness:
  "KeepRunningCurrent_onTaskKilled FIFO_remove 1 1
       \<lparr>tasks = (\<lambda>_. \<lparr>ident = 0, priority = 0, ticks = 0\<rparr>), queue = [1, 2]\<rparr>
     = Inl killed_current
   \<and> KeepRunningCurrent_onTaskKilled FIFO_remove nullptr nullptr
       \<lparr>tasks = (\<lambda>_. \<lparr>ident = 0, priority = 0, ticks = 0\<rparr>), queue = [1, 2]\<rparr>
     = Inl killed_current
   \<and> KeepRunningCurrent_onTaskKilled FIFO_remove nullptr 2
       \<lparr>tasks = (\<lambda>_. \<lparr>ident = 0, priority = 0, ticks = 0\<rparr>), queue = [1, 2]\<rparr>
     = Inr (nullptr, \<lparr>tasks = (\<lambda>_. \<lparr>ident = 0, priority = 0, ticks = 0\<rparr>), queue = [1]\<rparr>)
   \<and> KeepRunningCurrent_onTaskKilled FIFO_remove 3 2
       \<lparr>tasks = (\<lambda>_. \<lparr>ident = 0, priority = 0, ticks = 0\<rparr>), queue = [1, 2]\<rparr>
     = Inr (3, \<lparr>tasks = (\<lambda>_. \<lparr>ident = 0, priority = 0, ticks = 0\<rparr>), queue = [1]\<rparr>)"
proof -
  let ?s = "\<lparr>tasks = (\<lambda>_. \<lparr>ident = 0, priority = 0, ticks = 0\<rparr>), queue = [1, 2] :: ptr list\<rparr>"
  have 1: "KeepRunningCurrent_onTaskKilled FIFO_remove 1 1 ?s = Inl killed_current"
    using onTaskKilled_assertion [where current = 1 and task = 1, THEN conjunct1] by simp
  have 2: "KeepRunningCurrent_onTaskKilled FIFO_remove nullptr nullptr ?s = Inl killed_current"
    using onTaskKilled_assertion [where current = nullptr and task = nullptr, THEN conjunct1]
    by simp
  have 3: "KeepRunningCurrent_onTaskKilled FIFO_remove nullptr 2 ?s
      = bind_err (FIFO_remove 2 ?s) (\<lambda>s1. Inr (nullptr, s1))"
    using onTaskKilled_assertion
      [where current = nullptr and task = 2, THEN conjunct2, THEN conjunct1]
    by (simp add: nullptr_def)
  have 4: "KeepRunningCurrent_onTaskKilled FIFO_remove 3 2 ?s
      = bind_err (FIFO_remove 2 ?s) (\<lambda>s1. Inr (3, s1))"
    using onTaskKilled_assertion
      [where current = 3 and task = 2, THEN conjunct2, THEN conjunct2, THEN conjunct1]
    by (simp add: nullptr_def)
  show ?thesis using 1 2 3 4 by (simp add: FIFO_remove_def)
qed

lemma MultiQueue_next_tasks: "tasks (snd (MultiQueue_next s)) = tasks s"
  by (simp add: MultiQueue_next_def split: prod.splits)

lemma MultiQueue_next_found:
  assumes "l < length (queue s)" "queue s ! l = Some (t # q)" "no_null (queue s)"
    and "\<forall>l'. l < l' \<and> l' < length (queue s) \<longrightarrow> idle_level (queue s ! l')"
  shows "MultiQueue_next s = (t, s\<lparr>queue := (queue s)[l := Some q]\<rparr>) \<and> t \<noteq> nullptr"
proof -
  have "Some (t # q) \<in> set (queue s)" using assms(1,2) by (metis nth_mem)
  then have t: "t \<noteq> nullptr" using assms(3) by (force simp: no_null_def)
  then have "ArrayMap_next (queue s) = (t, (queue s)[l := Some q])"
    using assms by (intro ArrayMap_next_found) simp_all
  then show ?thesis using t by (simp add: MultiQueue_next_def)
qed

section \<open>Timer interrupts with quantum bookkeeping\<close>

text \<open>
  Claim C10.  When the idle-aware timer interrupt handler with quantum bookkeeping receives
  the idle task as \<open>current\<close>, neither \<^verbatim>\<open>tick()\<close> nor the quantum-used-up handler
  runs: the result is what \<^verbatim>\<open>next()\<close> yields, or the idle task where that is null.
  In the multilevel feedback queue the store of tasks is unchanged, so the idle task keeps
  its ticks and its priority, and the task returned is the front of the highest non-empty
  level, or the idle task when every level is empty.
\<close>

theorem idle_task_is_not_ticked:
  "KeepRunningCurrentWithAnyQuantumUsedUpHandlerAndIdleTaskSupport_onTimerInterrupt
       nxt idle used_up idle s
     = Inr (if fst (nxt s) = nullptr then idle else fst (nxt s), snd (nxt s))
   \<and> (\<exists>r s'. MLFQ_idle_onTimerInterrupt spec idle idle ms = Inr (r, s')
        \<and> tasks s' = tasks ms
        \<and> ticks (tasks s' idle) = ticks (tasks ms idle)
        \<and> priority (tasks s' idle) = priority (tasks ms idle)
        \<and> (r, s') = (if fst (MultiQueue_next ms) = nullptr then idle
                      else fst (MultiQueue_next ms), snd (MultiQueue_next ms)))
   \<and> ((\<forall>l < length (queue ms). idle_level (queue ms ! l)) \<longrightarrow>
        MLFQ_idle_onTimerInterrupt spec idle idle ms = Inr (idle, ms))
   \<and> (\<forall>l t q. no_null (queue ms) \<and> l < length (queue ms) \<and> queue ms ! l = Some (t # q)
          \<and> (\<forall>l'. l < l' \<and> l' < length (queue ms) \<longrightarrow> idle_level (queue ms ! l'))
        \<longrightarrow> MLFQ_idle_onTimerInterrupt spec idle idle ms
              = Inr (t, ms\<lparr>queue := (queue ms)[l := Some q]\<rparr>))"
proof (intro conjI allI impI)
  show "KeepRunningCurrentWithAnyQuantumUsedUpHandlerAndIdleTaskSupport_onTimerInterrupt
       nxt idle used_up idle s
     = Inr (if fst (nxt s) = nullptr then idle else fst (nxt s), snd (nxt s))"
    by (cases "nxt s")
       (simp add: KeepRunningCurrentWithAnyQuantumUsedUpHandlerAndIdleTaskSupport_onTimerInterrupt_def)
next
  have "MLFQ_idle_onTimerInterrupt spec idle idle ms
      = Inr (if fst (MultiQueue_next ms) = nullptr then idle else fst (MultiQueue_next ms),
             snd (MultiQueue_next ms))"
    by (cases "MultiQueue_next ms")
       (simp add: MLFQ_idle_onTimerInterrupt_def
          KeepRunningCurrentWithAnyQuantumUsedUpHandlerAndIdleTaskSupport_onTimerInterrupt_def)
  then show "\<exists>r s'. MLFQ_idle_onTimerInterrupt spec idle idle ms = Inr (r, s')
        \<and> tasks s' = tasks ms
        \<and> ticks (tasks s' idle) = ticks (tasks ms idle)
        \<and> priority (tasks s' idle) = priority (tasks ms idle)
        \<and> (r, s') = (if fst (MultiQueue_next ms) = nullptr then idle
                      else fst (MultiQueue_next ms), snd (MultiQueue_next ms))"
    by (simp add: MultiQueue_next_tasks)
next
  assume "\<forall>l < length (queue ms). idle_level (queue ms ! l)"
  then have "MultiQueue_next ms = (nullptr, ms)" by (rule MultiQueue_next_all_idle)
  then show "MLFQ_idle_onTimerInterrupt spec idle idle ms = Inr (idle, ms)"
    by (simp add: MLFQ_idle_onTimerInterrupt_def
          KeepRunningCurrentWithAnyQuantumUsedUpHandlerAndIdleTaskSupport_onTimerInterrupt_def)
next
  fix l t q
  assume h: "no_null (queue ms) \<and> l < length (queue ms) \<and> queue ms ! l = Some (t # q)
          \<and> (\<forall>l'. l < l' \<and> l' < length (queue ms) \<longrightarrow> idle_level (queue ms ! l'))"
  then have "MultiQueue_next ms = (t, ms\<lparr>queue := (queue ms)[l := Some q]\<rparr>) \<and> t \<noteq> nullptr"
    by (intro MultiQueue_next_found) simp_all
  then show "MLFQ_idle_onTimerInterrupt spec idle idle ms
              = Inr (t, ms\<lparr>queue := (queue ms)[l := Some q]\<rparr>)"
    by (simp add: MLFQ_idle_onTimerInterrupt_def
          KeepRunningCurrentWithAnyQuantumUsedUpHandlerAndIdleTaskSupport_onTimerInterrupt_def)
qed

theorem idle_task_is_not_ticked_witness:
  "MLFQ_idle_onTimerInterrupt QuantumSpecifier 9 9
       \<lparr>tasks = (\<lambda>_. \<lparr>ident = 0, priority = 0, ticks = 0\<rparr>),
        queue = [None, Some [5], Some [7, 8], Some []]\<rparr>
     = Inr (7, \<lparr>tasks = (\<lambda>_. \<lparr>ident = 0, priority = 0, ticks = 0\<rparr>),
                queue = [None, Some [5], Some [8], Some []]\<rparr>)
   \<and> MLFQ_idle_onTimerInterrupt QuantumSpecifier 9 9
       \<lparr>tasks = (\<lambda>_. \<lparr>ident = 0, priority = 0, ticks = 0\<rparr>),
        queue = [None, Some [], None, Some []]\<rparr>
     = Inr (9, \<lparr>tasks = (\<lambda>_. \<lparr>ident = 0, priority = 0, ticks = 0\<rparr>),
                queue = [None, Some [], None, Some []]\<rparr>)"
proof -
  let ?h = "\<lambda>_ :: ptr. \<lparr>ident = 0, priority = 0, ticks = 0\<rparr>"
  let ?qs = "[None, Some [5], Some [7, 8], Some []] :: subqueue option list"
  let ?es = "[None, Some [], None, Some []] :: subqueue option list"
  have i: "\<forall>l'. 2 < l' \<and> l' < length ?qs \<longrightarrow> idle_level (?qs ! l')"
  proof (intro allI impI)
    fix l' :: nat assume "2 < l' \<and> l' < length ?qs"
    then have "l' = 3" by simp
    then show "idle_level (?qs ! l')" by (simp add: idle_level_def)
  qed
  have e: "\<forall>l < length ?es. idle_level (?es ! l)"
    by (simp add: idle_level_def less_Suc_eq all_conj_distrib)
  have 1: "MLFQ_idle_onTimerInterrupt QuantumSpecifier 9 9 \<lparr>tasks = ?h, queue = ?qs\<rparr>
      = Inr (7, \<lparr>tasks = ?h, queue = ?qs\<rparr>\<lparr>queue := ?qs[2 := Some [8]]\<rparr>)"
    using idle_task_is_not_ticked
      [where ms = "\<lparr>tasks = ?h, queue = ?qs\<rparr>" and spec = QuantumSpecifier and idle = 9,
       THEN conjunct2, THEN conjunct2, THEN conjunct2, rule_format, of 2 7 "[8]"] i
    by (simp add: no_null_def nullptr_def)
  have 2: "MLFQ_idle_onTimerInterrupt QuantumSpecifier 9 9 \<lparr>tasks = ?h, queue = ?es\<rparr>
      = Inr (9, \<lparr>tasks = ?h, queue = ?es\<rparr>)"
    using idle_task_is_not_ticked
      [where ms = "\<lparr>tasks = ?h, queue = ?es\<rparr>" and spec = QuantumSpecifier and idle = 9,
       THEN conjunct2, THEN conjunct2, THEN conjunct1] e
    by simp
  show ?thesis using 1 2 by simp
qed

lemma priority_allocateTicks [simp]: "priority (allocateTicks n t) = priority t"
  by (simp add: allocateTicks_def)

text \<open>
  Claim C6.  \<^verbatim>\<open>RunNextWithDemotionAndQuantumRecharged::onTaskQuantumUsedUp\<close> demotes
  \<open>current\<close> once (one level down, not below level 1), allocates the ticks the quantum
  specifier gives for the priority after the demotion, enqueues \<open>current\<close> and returns
  \<^verbatim>\<open>next()\<close>.  Over the multi-queue policy \<open>current\<close> is appended to the sub-queue
  of its new level.
\<close>

theorem demotion_then_recharge:
  assumes "current \<noteq> nullptr"
  shows "RunNextWithDemotionAndQuantumRecharged_onTaskQuantumUsedUp spec rdy nxt current s
     = bind_err (spec (priority (demote (tasks s current)))) (\<lambda>n.
       bind_err (rdy current
          (s\<lparr>tasks := (tasks s)(current := allocateTicks n (demote (tasks s current)))\<rparr>))
         (\<lambda>s1. Inr (nxt s1)))
   \<and> priority (demote (tasks s current))
       = (if 1 < priority (tasks s current) then priority (tasks s current) - 1
          else priority (tasks s current))
   \<and> (\<forall>n. spec (priority (demote (tasks ms current))) = Inr n
            \<and> priority (demote (tasks ms current)) < length (queue ms)
        \<longrightarrow> RunNextWithDemotionAndQuantumRecharged_onTaskQuantumUsedUp
              spec MultiQueue_ready MultiQueue_next current ms
            = Inr (MultiQueue_next
                (ms\<lparr>tasks := (tasks ms)(current := (tasks ms current)
                         \<lparr>priority := priority (demote (tasks ms current)), ticks := n\<rparr>),
                    queue := (queue ms)[priority (demote (tasks ms current)) :=
                       Some ((case queue ms ! priority (demote (tasks ms current)) of
                                None \<Rightarrow> [] | Some q \<Rightarrow> q) @ [current])]\<rparr>)))"
proof (intro conjI allI impI)
  show "RunNextWithDemotionAndQuantumRecharged_onTaskQuantumUsedUp spec rdy nxt current s
     = bind_err (spec (priority (demote (tasks s current)))) (\<lambda>n.
       bind_err (rdy current
          (s\<lparr>tasks := (tasks s)(current := allocateTicks n (demote (tasks s current)))\<rparr>))
         (\<lambda>s1. Inr (nxt s1)))"
    using assms
    by (cases "spec (priority (demote (tasks s current)))")
       (simp_all add: RunNextWithDemotionAndQuantumRecharged_onTaskQuantumUsedUp_def
          through_def getPriority_def)
next
  show "priority (demote (tasks s current))
       = (if 1 < priority (tasks s current) then priority (tasks s current) - 1
          else priority (tasks s current))"
    by (simp add: demote_def)
next
  fix n
  assume h: "spec (priority (demote (tasks ms current))) = Inr n
            \<and> priority (demote (tasks ms current)) < length (queue ms)"
  have d: "allocateTicks n (demote (tasks ms current))
      = (tasks ms current)\<lparr>priority := priority (demote (tasks ms current)), ticks := n\<rparr>"
    by (simp add: allocateTicks_def demote_def)
  show "RunNextWithDemotionAndQuantumRecharged_onTaskQuantumUsedUp
              spec MultiQueue_ready MultiQueue_next current ms
            = Inr (MultiQueue_next
                (ms\<lparr>tasks := (tasks ms)(current := (tasks ms current)
                         \<lparr>priority := priority (demote (tasks ms current)), ticks := n\<rparr>),
                    queue := (queue ms)[priority (demote (tasks ms current)) :=
                       Some ((case queue ms ! priority (demote (tasks ms current)) of
                                None \<Rightarrow> [] | Some q \<Rightarrow> q) @ [current])]\<rparr>))"
    using assms h
    by (simp add: RunNextWithDemotionAndQuantumRecharged_onTaskQuantumUsedUp_def
          through_def getPriority_def MultiQueue_ready_def ArrayMap_ready_def StlQueue_ready_def
          d [symmetric])
qed

theorem demotion_then_recharge_witness:
  "RunNextWithDemotionAndQuantumRecharged_onTaskQuantumUsedUp
       QuantumSpecifier MultiQueue_ready MultiQueue_next 1
       \<lparr>tasks = (\<lambda>_. \<lparr>ident = 0, priority = 3, ticks = 0\<rparr>), queue = [None, None, None, None]\<rparr>
     = Inr (1, \<lparr>tasks = (\<lambda>_. \<lparr>ident = 0, priority = 3, ticks = 0\<rparr>)
                         (1 := \<lparr>ident = 0, priority = 2, ticks = 2\<rparr>),
                queue = [None, None, Some [], None]\<rparr>)"
proof -
  let ?s = "\<lparr>tasks = (\<lambda>_. \<lparr>ident = 0, priority = 3, ticks = 0\<rparr>),
             queue = [None, None, None, None] :: subqueue option list\<rparr>"
  have a: "(1 :: ptr) \<noteq> nullptr" by (simp add: nullptr_def)
  have d: "priority (demote (tasks ?s 1)) = 2" by (simp add: demote_def)
  have "RunNextWithDemotionAndQuantumRecharged_onTaskQuantumUsedUp
       QuantumSpecifier MultiQueue_ready MultiQueue_next 1 ?s
     = Inr (MultiQueue_next
         (?s\<lparr>tasks := (tasks ?s)(1 := (tasks ?s 1)\<lparr>priority := 2, ticks := 2\<rparr>),
             queue := (queue ?s)[2 := Some ((case queue ?s ! 2 of None \<Rightarrow> [] | Some q \<Rightarrow> q) @ [1])]\<rparr>))"
    using demotion_then_recharge
      [OF a, where ms = ?s and spec = QuantumSpecifier, THEN conjunct2, THEN conjunct2,
       rule_format, of 2]
    unfolding d by (simp add: QuantumSpecifier_def)
  then show ?thesis
    by (simp add: MultiQueue_next_def ArrayMap_next_def nullptr_def)
qed

section \<open>The multilevel feedback queue\<close>

lemma ticks_tick:
  "1 \<le> ticks t \<Longrightarrow> ticks t \<le> UINT32_MAX \<Longrightarrow> ticks (tick t) = ticks t - 1"
  by (simp add: tick_def UINT32_MAX_def mod_if)

lemma priority_tick [simp]: "priority (tick t) = priority t"
  by (simp add: tick_def)

lemma all_idle_enqueue_dequeue:
  assumes "all_idle queues" and "p < length queues" and "current \<noteq> nullptr"
  shows "ArrayMap_next (queues[p := Some ((case queues ! p of None \<Rightarrow> [] | Some q \<Rightarrow> q) @ [current])])
           = (current, queues[p := Some []])"
    and "all_idle (queues[p := Some []])"
proof -
  have q0: "(case queues ! p of None \<Rightarrow> [] | Some q \<Rightarrow> q) = []"
    using assms(1,2) by (auto simp: all_idle_def idle_level_def split: option.splits)
  let ?qs = "queues[p := Some [current]]"
  have "ArrayMap_next ?qs = (current, ?qs[p := Some []])"
  proof (rule ArrayMap_next_found)
    show "p < length ?qs" using assms(2) by simp
    show "?qs ! p = Some [current]" using assms(2) by simp
    show "current \<noteq> nullptr" by (rule assms(3))
    show "\<forall>l'. p < l' \<and> l' < length ?qs \<longrightarrow> idle_level (?qs ! l')"
      using assms(1) by (simp add: all_idle_def)
  qed
  then show "ArrayMap_next (queues[p := Some ((case queues ! p of None \<Rightarrow> [] | Some q \<Rightarrow> q) @ [current])])
           = (current, queues[p := Some []])"
    by (simp add: q0)
  show "all_idle (queues[p := Some []])"
    using assms(1,2) by (auto simp: all_idle_def nth_list_update idle_level_def)
qed

lemma MLFQ_step:
  assumes "current \<noteq> nullptr" and "all_idle (queue s)"
    and "1 \<le> priority (tasks s current)" and "priority (tasks s current) < length (queue s)"
    and "1 \<le> ticks (tasks s current)" and "ticks (tasks s current) \<le> q" and "q \<le> UINT32_MAX"
  shows "\<exists>s'. MLFQ_onTimerInterrupt (\<lambda>_. Inr q) current s = Inr (current, s')
      \<and> all_idle (queue s') \<and> length (queue s') = length (queue s)
      \<and> priority (tasks s' current)
          = (if ticks (tasks s current) = 1
             then (if 1 < priority (tasks s current) then priority (tasks s current) - 1
                   else priority (tasks s current))
             else priority (tasks s current))
      \<and> ticks (tasks s' current)
          = (if ticks (tasks s current) = 1 then q else ticks (tasks s current) - 1)"
proof -
  let ?t = "tasks s current"
  have tk: "ticks (tick ?t) = ticks ?t - 1"
    using assms(5,6,7) by (intro ticks_tick) simp_all
  show ?thesis
  proof (cases "ticks ?t = 1")
    case False
    then have "\<not> hasUsedUpTimeAllotment (tick ?t)"
      using tk assms(5) by (simp add: hasUsedUpTimeAllotment_def)
    then have "MLFQ_onTimerInterrupt (\<lambda>_. Inr q) current s
        = Inr (current, s\<lparr>tasks := (tasks s)(current := tick ?t)\<rparr>)"
      using assms(1)
      by (simp add: MLFQ_onTimerInterrupt_def
            KeepRunningCurrentWithAnyQuantumUsedUpHandler_onTimerInterrupt_def through_def)
    then show ?thesis using False tk assms(2) by simp
  next
    case True
    then have used: "hasUsedUpTimeAllotment (tick ?t)"
      using tk by (simp add: hasUsedUpTimeAllotment_def)
    define p' where "p' = priority (demote (tick ?t))"
    have p': "p' = (if 1 < priority ?t then priority ?t - 1 else priority ?t)"
      by (simp add: p'_def demote_def)
    have bound: "p' < length (queue s)" using assms(4) by (auto simp: p')
    define h' where "h' = (tasks s)(current := allocateTicks q (demote (tick ?t)))"
    note eq = all_idle_enqueue_dequeue [OF assms(2) bound assms(1)]
    have "MLFQ_onTimerInterrupt (\<lambda>_. Inr q) current s
        = Inr (current, \<lparr>tasks = h', queue = (queue s)[p' := Some []]\<rparr>)"
      using assms(1) used bound eq(1)
      by (simp add: MLFQ_onTimerInterrupt_def
            KeepRunningCurrentWithAnyQuantumUsedUpHandler_onTimerInterrupt_def through_def
            RunNextWithDemotion_onTaskQuantumUsedUp_def MLFQ_ready_def
            PolicyWithEnqueueExtensions_ready_def PriorityBasedTaskQuantumAllocator_def
            getPriority_def MultiQueue_ready_def ArrayMap_ready_def StlQueue_ready_def
            MultiQueue_next_def h'_def p'_def)
    moreover have "priority (h' current) = p'" by (simp add: h'_def p'_def allocateTicks_def)
    moreover have "ticks (h' current) = q" by (simp add: h'_def allocateTicks_def)
    ultimately show ?thesis using True eq(2) p' by simp
  qed
qed

lemma demote_max:
  "1 \<le> p0 \<Longrightarrow> (if 1 < max 1 (p0 - d) then max 1 (p0 - d) - 1 else max 1 (p0 - d))
     = max (1 :: nat) (p0 - Suc d)"
  by (auto simp: max_def)



text \<open>
  With the quantum specifier of \<^verbatim>\<open>SimpleTask\<close> (quantum 1 at level 3, 2 at level 2,
  unlimited at level 1) the formula fails whichever level \<open>p\<close> its \<open>q(p)\<close> is read at.
  A task of priority 3 with its one tick runs alone: the first interrupt demotes it to
  level 2, the second leaves it there, the third demotes it to level 1.
\<close>

lemma MLFQ_first_interrupt:
  "MLFQ_onTimerInterrupt QuantumSpecifier 1
       \<lparr>tasks = (\<lambda>_. \<lparr>ident = 0, priority = 3, ticks = 1\<rparr>), queue = [None, None, None, None]\<rparr>
     = Inr (1, \<lparr>tasks = (\<lambda>_. \<lparr>ident = 0, priority = 3, ticks = 1\<rparr>)
                         (1 := \<lparr>ident = 0, priority = 2, ticks = 2\<rparr>),
                queue = [None, None, Some [], None]\<rparr>)"
  by (simp add: MLFQ_onTimerInterrupt_def
        KeepRunningCurrentWithAnyQuantumUsedUpHandler_onTimerInterrupt_def through_def
        RunNextWithDemotion_onTaskQuantumUsedUp_def MLFQ_ready_def
        PolicyWithEnqueueExtensions_ready_def PriorityBasedTaskQuantumAllocator_def
        getPriority_def MultiQueue_ready_def ArrayMap_ready_def StlQueue_ready_def
        MultiQueue_next_def ArrayMap_next_def QuantumSpecifier_def
        tick_def demote_def allocateTicks_def hasUsedUpTimeAllotment_def
        nullptr_def UINT32_MAX_def)

lemma MLFQ_second_interrupt:
  "MLFQ_onTimerInterrupt QuantumSpecifier 1
       \<lparr>tasks = (\<lambda>_. \<lparr>ident = 0, priority = 3, ticks = 1\<rparr>)
                         (1 := \<lparr>ident = 0, priority = 2, ticks = 2\<rparr>),
        queue = [None, None, Some [], None]\<rparr>
     = Inr (1, \<lparr>tasks = (\<lambda>_. \<lparr>ident = 0, priority = 3, ticks = 1\<rparr>)
                         (1 := \<lparr>ident = 0, priority = 2, ticks = 1\<rparr>),
                queue = [None, None, Some [], None]\<rparr>)"
  by (simp add: MLFQ_onTimerInterrupt_def
        KeepRunningCurrentWithAnyQuantumUsedUpHandler_onTimerInterrupt_def through_def
        tick_def hasUsedUpTimeAllotment_def nullptr_def UINT32_MAX_def)

lemma MLFQ_third_interrupt:
  "MLFQ_onTimerInterrupt QuantumSpecifier 1
       \<lparr>tasks = (\<lambda>_. \<lparr>ident = 0, priority = 3, ticks = 1\<rparr>)
                         (1 := \<lparr>ident = 0, priority = 2, ticks = 1\<rparr>),
        queue = [None, None, Some [], None]\<rparr>
     = Inr (1, \<lparr>tasks = (\<lambda>_. \<lparr>ident = 0, priority = 3, ticks = 1\<rparr>)
                         (1 := \<lparr>ident = 0, priority = 1, ticks = UINT32_MAX\<rparr>),
                queue = [None, Some [], Some [], None]\<rparr>)"
  by (simp add: MLFQ_onTimerInterrupt_def
        KeepRunningCurrentWithAnyQuantumUsedUpHandler_onTimerInterrupt_def through_def
        RunNextWithDemotion_onTaskQuantumUsedUp_def MLFQ_ready_def
        PolicyWithEnqueueExtensions_ready_def PriorityBasedTaskQuantumAllocator_def
        getPriority_def MultiQueue_ready_def ArrayMap_ready_def StlQueue_ready_def
        MultiQueue_next_def ArrayMap_next_def QuantumSpecifier_def
        tick_def demote_def allocateTicks_def hasUsedUpTimeAllotment_def
        nullptr_def UINT32_MAX_def)


section \<open>Re-homing a task whose priority changed\<close>

lemma rehome_then_next:
  assumes "task \<noteq> nullptr" and "current \<noteq> nullptr"
    and "oldPriority < length queues" and "queues ! oldPriority = Some qo" and "task \<in> set qo"
    and "priority (h task) < length queues" and "priority (h current) < priority (h task)"
    and "\<forall>l < length queues. priority (h task) \<le> l \<longrightarrow>
           idle_level (queues[oldPriority := Some (remove1 task qo)] ! l)"
  shows "\<exists>q1 q2 q3. ArrayMap_adjustPosition h task oldPriority queues = Inr q1
           \<and> ArrayMap_ready h current q1 = Inr q2
           \<and> ArrayMap_next q2 = (task, q3)"
proof -
  let ?p = "priority (h task)"
  let ?c = "priority (h current)"
  define r where "r = queues[oldPriority := Some (remove1 task qo)]"
  have len: "length r = length queues" by (simp add: r_def)
  have idle: "\<forall>l < length r. ?p \<le> l \<longrightarrow> idle_level (r ! l)"
    using assms(8) by (simp add: r_def)
  then have "idle_level (r ! ?p)" using assms(6) len by simp
  then have rp: "(case r ! ?p of None \<Rightarrow> [] | Some q \<Rightarrow> q) = []"
    by (auto simp: idle_level_def)
  define q1 where "q1 = r[?p := Some [task]]"
  have adj: "ArrayMap_adjustPosition h task oldPriority queues = Inr q1"
    using assms(1,3,4,5,6) rp
    by (simp add: ArrayMap_adjustPosition_def ArrayMap_ready_def getPriority_def
          StlQueue_ready_def r_def [symmetric] q1_def len)
  define q2 where
    "q2 = q1[?c := Some ((case q1 ! ?c of None \<Rightarrow> [] | Some q \<Rightarrow> q) @ [current])]"
  have c: "?c < length q1" using assms(6,7) by (simp add: q1_def len)
  have rdy: "ArrayMap_ready h current q1 = Inr q2"
    using assms(2) c
    by (simp add: ArrayMap_ready_def getPriority_def StlQueue_ready_def q2_def)
  have "ArrayMap_next q2 = (task, q2[?p := Some []])"
  proof (rule ArrayMap_next_found)
    show "?p < length q2" using assms(6) by (simp add: q2_def q1_def len)
    show "q2 ! ?p = Some [task]"
      using assms(6,7) by (simp add: q2_def q1_def len)
    show "task \<noteq> nullptr" by (rule assms(1))
    show "\<forall>l'. ?p < l' \<and> l' < length q2 \<longrightarrow> idle_level (q2 ! l')"
      using idle assms(7) by (simp add: q2_def q1_def len)
  qed
  then show ?thesis using adj rdy by blast
qed

text \<open>
  Claim C3, as amended.  \<^verbatim>\<open>onTaskPriorityChanged(current, task, oldPriority)\<close> first
  re-homes \<open>task\<close> with \<^verbatim>\<open>adjustPosition(task, oldPriority)\<close>; it then either
  enqueues \<open>current\<close> and returns \<^verbatim>\<open>next()\<close>, or returns \<open>current\<close>.  Where it
  enqueues \<open>current\<close> and returns \<^verbatim>\<open>next()\<close> over the multi-queue policy, the task
  returned is \<open>task\<close> provided that \<open>current\<close> has a lower priority and that, once
  \<open>task\<close> has left its old sub-queue, no level from its new priority upwards offers
  another task.
\<close>

theorem priority_changed_rehomes:
  "(Balance_onTaskPriorityChanged adj rdy nxt current task oldPriority s
      = bind_err (adj task oldPriority s) (\<lambda>s1. bind_err (rdy current s1) (\<lambda>s2. Inr (nxt s2)))
    \<or> Balance_onTaskPriorityChanged adj rdy nxt current task oldPriority s
      = bind_err (adj task oldPriority s) (\<lambda>s1. Inr (current, s1)))
   \<and> (task \<noteq> nullptr \<and> current \<noteq> nullptr
        \<and> oldPriority < length (queue ms) \<and> queue ms ! oldPriority = Some qo \<and> task \<in> set qo
        \<and> priority (tasks ms task) < length (queue ms)
        \<and> priority (tasks ms current) < priority (tasks ms task)
        \<and> (\<forall>l < length (queue ms). priority (tasks ms task) \<le> l \<longrightarrow>
              idle_level ((queue ms)[oldPriority := Some (remove1 task qo)] ! l))
      \<longrightarrow> (\<exists>s'. bind_err (MultiQueue_adjustPosition task oldPriority ms)
                    (\<lambda>s1. bind_err (MultiQueue_ready current s1)
                       (\<lambda>s2. Inr (MultiQueue_next s2)))
                 = Inr (task, s')))"
proof (intro conjI impI)
  show "Balance_onTaskPriorityChanged adj rdy nxt current task oldPriority s
      = bind_err (adj task oldPriority s) (\<lambda>s1. bind_err (rdy current s1) (\<lambda>s2. Inr (nxt s2)))
    \<or> Balance_onTaskPriorityChanged adj rdy nxt current task oldPriority s
      = bind_err (adj task oldPriority s) (\<lambda>s1. Inr (current, s1))"
    by (cases "current < task") (simp_all add: Balance_onTaskPriorityChanged_def)
next
  assume h: "task \<noteq> nullptr \<and> current \<noteq> nullptr
        \<and> oldPriority < length (queue ms) \<and> queue ms ! oldPriority = Some qo \<and> task \<in> set qo
        \<and> priority (tasks ms task) < length (queue ms)
        \<and> priority (tasks ms current) < priority (tasks ms task)
        \<and> (\<forall>l < length (queue ms). priority (tasks ms task) \<le> l \<longrightarrow>
              idle_level ((queue ms)[oldPriority := Some (remove1 task qo)] ! l))"
  then obtain q1 q2 q3
    where "ArrayMap_adjustPosition (tasks ms) task oldPriority (queue ms) = Inr q1"
      and "ArrayMap_ready (tasks ms) current q1 = Inr q2"
      and "ArrayMap_next q2 = (task, q3)"
    using rehome_then_next [of task current oldPriority "queue ms" qo "tasks ms"] by blast
  then show "\<exists>s'. bind_err (MultiQueue_adjustPosition task oldPriority ms)
                    (\<lambda>s1. bind_err (MultiQueue_ready current s1)
                       (\<lambda>s2. Inr (MultiQueue_next s2)))
                 = Inr (task, s')"
    by (simp add: MultiQueue_adjustPosition_def MultiQueue_ready_def MultiQueue_next_def)
qed



theorem priority_changed_rehomes_witness:
  "\<exists>s'. bind_err (MultiQueue_adjustPosition 2 0
            \<lparr>tasks = (\<lambda>a. \<lparr>ident = a, priority = a, ticks = 0\<rparr>),
             queue = [Some [2], None, None, None]\<rparr>)
          (\<lambda>s1. bind_err (MultiQueue_ready 1 s1) (\<lambda>s2. Inr (MultiQueue_next s2)))
        = Inr (2, s')"
proof -
  let ?s = "\<lparr>tasks = (\<lambda>a. \<lparr>ident = a, priority = a, ticks = 0\<rparr>),
             queue = [Some [2], None, None, None] :: subqueue option list\<rparr>"
  have idle: "\<forall>l < length (queue ?s). priority (tasks ?s 2) \<le> l \<longrightarrow>
      idle_level ((queue ?s)[0 := Some (remove1 2 [2])] ! l)"
    by (simp add: idle_level_def less_Suc_eq all_conj_distrib)
  have pre: "(2 :: ptr) \<noteq> nullptr \<and> (1 :: ptr) \<noteq> nullptr
        \<and> 0 < length (queue ?s) \<and> queue ?s ! 0 = Some [2] \<and> (2 :: ptr) \<in> set [2]
        \<and> priority (tasks ?s 2) < length (queue ?s)
        \<and> priority (tasks ?s 1) < priority (tasks ?s 2)"
    by (simp add: nullptr_def)
  show ?thesis
    using priority_changed_rehomes
      [where ms = ?s and task = 2 and current = 1 and oldPriority = 0 and qo = "[2]",
       THEN conjunct2, rule_format]
      pre idle
    by simp
qed

text \<open>
  The claim as stated fails when a third task is ready at a higher level.  The task at
  address \<open>a\<close> has priority \<open>a\<close>; task 1 is running, task 2 is ready and has been
  raised from priority 0 to 2, task 3 is ready at level 3.  Task 2 outranks task 1 (by
  priority, and by address), the handler enqueues task 1 and returns task 3.
\<close>

theorem priority_changed_third_task_counterexample:
  "Balance_onTaskPriorityChanged MultiQueue_adjustPosition MultiQueue_ready MultiQueue_next 1 2 0
       \<lparr>tasks = (\<lambda>a. \<lparr>ident = a, priority = a, ticks = 0\<rparr>),
        queue = [Some [2], None, None, Some [3]]\<rparr>
     = Inr (3, \<lparr>tasks = (\<lambda>a. \<lparr>ident = a, priority = a, ticks = 0\<rparr>),
                queue = [Some [], Some [1], Some [2], Some []]\<rparr>)
   \<and> priority ((\<lambda>a. \<lparr>ident = a, priority = a, ticks = 0\<rparr>) 1)
       < priority ((\<lambda>a. \<lparr>ident = a, priority = a, ticks = 0\<rparr>) 2)
   \<and> (1 :: ptr) \<noteq> 2 \<and> (3 :: ptr) \<noteq> 2"
  by (simp add: Balance_onTaskPriorityChanged_def MultiQueue_adjustPosition_def
        ArrayMap_adjustPosition_def MultiQueue_ready_def ArrayMap_ready_def getPriority_def
        StlQueue_ready_def MultiQueue_next_def ArrayMap_next_def nullptr_def)

text \<open>
  The condition of the handler is the order of the addresses.  Task 1 is ready and has been
  raised from priority 0 to 3; the running task 2 has priority 2 and the higher address:
  the handler keeps it running.
\<close>

lemma priority_changed_compares_pointers:
  "Balance_onTaskPriorityChanged MultiQueue_adjustPosition MultiQueue_ready MultiQueue_next 2 1 0
       \<lparr>tasks = (\<lambda>a. \<lparr>ident = a, priority = 4 - a, ticks = 0\<rparr>),
        queue = [Some [1], None, None, None]\<rparr>
     = Inr (2, \<lparr>tasks = (\<lambda>a. \<lparr>ident = a, priority = 4 - a, ticks = 0\<rparr>),
                queue = [Some [], None, None, Some [1]]\<rparr>)
   \<and> priority ((\<lambda>a. \<lparr>ident = a, priority = 4 - a, ticks = 0\<rparr>) 2)
       < priority ((\<lambda>a. \<lparr>ident = a, priority = 4 - a, ticks = 0\<rparr>) 1)"
  by (simp add: Balance_onTaskPriorityChanged_def MultiQueue_adjustPosition_def
        ArrayMap_adjustPosition_def MultiQueue_ready_def ArrayMap_ready_def getPriority_def
        StlQueue_ready_def MultiQueue_next_def ArrayMap_next_def nullptr_def)

section \<open>Ties in the prioritized single-queue policies\<close>

lemma set_LinkedList_insert [simp]: "set (LinkedList_insert cmp t ys) = insert t (set ys)"
  by (induction ys) auto

lemma LinkedListImp_next_Nil [simp]: "LinkedListImp_next [] = (nullptr, [])"
  by (simp add: LinkedListImp_next_def)

lemma LinkedListImp_next_Cons [simp]: "LinkedListImp_next (x # xs) = (x, xs)"
  by (simp add: LinkedListImp_next_def)

lemma insert_by_rank:
  "by_rank h q \<Longrightarrow> by_rank h (LinkedListImp_ready h t q)"
  unfolding by_rank_def LinkedListImp_ready_def
proof (induction q)
  case Nil
  then show ?case by simp
next
  case (Cons x xs)
  show ?case
  proof (cases "BridgedGreaterComparator h t x")
    case True
    then have "priority (h x) < priority (h t)" by (simp add: BridgedGreaterComparator_def)
    then show ?thesis using True Cons.prems by auto
  next
    case False
    then have "priority (h t) \<le> priority (h x)" by (simp add: BridgedGreaterComparator_def)
    then show ?thesis using False Cons by auto
  qed
qed

lemma insert_same_rank:
  "by_rank h q \<Longrightarrow>
   filter (\<lambda>a. priority (h a) = v) (LinkedListImp_ready h t q)
     = filter (\<lambda>a. priority (h a) = v) q @ (if priority (h t) = v then [t] else [])"
  unfolding by_rank_def LinkedListImp_ready_def
proof (induction q)
  case Nil
  then show ?case by simp
next
  case (Cons x xs)
  show ?case
  proof (cases "BridgedGreaterComparator h t x")
    case True
    then have "priority (h x) < priority (h t)" by (simp add: BridgedGreaterComparator_def)
    then have low: "\<forall>a \<in> set (x # xs). priority (h a) < priority (h t)"
      using Cons.prems by auto
    then have "priority (h t) = v \<Longrightarrow> filter (\<lambda>a. priority (h a) = v) (x # xs) = []"
      by (auto simp: filter_empty_conv)
    then show ?thesis using True by auto
  next
    case False
    then show ?thesis using Cons by auto
  qed
qed






end
